theory Spec2Isabelle
  imports Main
begin

section \<open>Data model of csvn.h\<close>

text \<open>
  The header is configured by preprocessor macros. Each flag that the code tests becomes a
  field of a configuration record: \<open>strict\<close> is \<^verbatim>\<open>#ifdef CSVN_STRICT\<close>,
  \<open>no_empty_field\<close> is \<^verbatim>\<open>#ifdef CSVN_NO_EMPTY_FIELD\<close>, \<open>ignore_empty_field\<close> is
  \<^verbatim>\<open>#elif CSVN_IGNORE_EMPTY_FIELD\<close> (tested only when the former is undefined) and
  \<open>skip_whitespace\<close> is \<^verbatim>\<open>#ifdef CSVN_SKIP_WHITESPACE\<close>. The macro CSVN_CONSIDER_NL is
  left out: with it defined, the statement \<^verbatim>\<open>line++\<close> in csvn_parse_quotes lacks
  its semicolon and the header is rejected by the compiler. CSVN_NEWLINE and CSVN_DELIM
  are defined by the header itself, without a guard, so they are constants.
\<close>

record config =
  strict :: bool
  no_empty_field :: bool
  ignore_empty_field :: bool
  skip_whitespace :: bool

definition default_config :: config where
  "default_config =
     \<lparr>strict = False, no_empty_field = False, ignore_empty_field = False,
      skip_whitespace = False\<rparr>"

definition CSVN_NEWLINE :: char where
  "CSVN_NEWLINE = CHR 0x0A"

definition CSVN_DELIM :: char where
  "CSVN_DELIM = CHR '',''"

definition NUL :: char where
  "NUL = CHR 0x00"

definition DQ :: char where
  "DQ = CHR 0x22"

definition SPACE :: char where
  "SPACE = CHR '' ''"

datatype csv_err = NOT_ENOUGH_MEM | INVALID_CHARACTER

text \<open>The numeric value of an error code, as the enum declares it.\<close>

fun err_code :: "csv_err \<Rightarrow> int" where
  "err_code NOT_ENOUGH_MEM = - 1"
| "err_code INVALID_CHARACTER = - 2"

datatype csv_tok = UNASSIGN | DQUOTE | TEXT | EMPTY

text \<open>
  struct csv_p. The three fields are C ints, modelled as unbounded integers: the
  embedding covers the runs in which no int overflows (signed overflow is undefined in C),
  as for every text shorter than 2 GiB parsed from a state after csvn_init.
\<close>

record csv_p =
  pos :: int
  toknext :: int
  line :: int

text \<open>
  struct csv_t. The fields start, end, line, size and token carry the prefix \<open>t_\<close>:
  \<open>end\<close> is a keyword, and \<open>line\<close> is a field of the parser state as well.
\<close>

record csv_t =
  t_start :: int
  t_end :: int
  t_line :: int
  t_size :: int
  t_token :: csv_tok

text \<open>
  The token pool is memory owned by the caller. It is modelled as a store from slot
  index to descriptor that holds the slots the parser has written, whatever their index
  (the code's write \<^verbatim>\<open>tokens[csv_p->toknext++]\<close> is not checked against the array's
  real extent, so neither is the store's update). A NULL pool is \<open>None\<close>.
\<close>

type_synonym tokmem = "nat \<rightharpoonup> csv_t"

text \<open>
  The text is a C string: the list holds the bytes in front of the terminator, and a read
  at the end of the list yields the NUL byte. The declared length \<open>textlen\<close> is a
  separate argument, as in the code, and may be shorter than the list. Every other read
  outside the list yields NUL as well. The code makes such reads one byte behind the
  terminator only (the loop condition of csvn_parse and the test under CSVN_STRICT, after
  the last field), where their value does not change the outcome as long as textlen does
  not exceed the length of the text.
\<close>

definition text_at :: "string \<Rightarrow> int \<Rightarrow> char" where
  "text_at text i = (if 0 \<le> i \<and> nat i < length text then text ! nat i else NUL)"

text \<open>
  Comparisons of an int with a size_t convert the int to size_t first, so that a negative
  int becomes a value above every length or capacity that occurs.
  \<open>lt_size i n\<close> is \<^verbatim>\<open>i < n\<close> and \<open>gt_size i n\<close> is \<^verbatim>\<open>i > n\<close> for int i and size_t n.
\<close>

definition lt_size :: "int \<Rightarrow> nat \<Rightarrow> bool" where
  "lt_size i n = (0 \<le> i \<and> i < int n)"

definition gt_size :: "int \<Rightarrow> nat \<Rightarrow> bool" where
  "gt_size i n = (i < 0 \<or> int n < i)"

section \<open>Initialisation and token allocation\<close>

definition csvn_init :: "csv_p \<Rightarrow> csv_p" where
  "csvn_init p = p\<lparr>pos := 0, toknext := 0, line := 1\<rparr>"

text \<open>
  csvn_allocate_token returns NULL (\<open>None\<close>) or the allocated slot; on success the result
  carries the slot's index, the advanced parser state and the pool with the slot reset.
\<close>

definition csvn_allocate_token ::
  "csv_p \<Rightarrow> tokmem option \<Rightarrow> nat \<Rightarrow> (nat \<times> csv_p \<times> tokmem) option" where
  "csvn_allocate_token p tokens num_tok =
     (case tokens of
        None \<Rightarrow> None
      | Some mem \<Rightarrow>
          if gt_size (toknext p) num_tok then None
          else Some (nat (toknext p), p\<lparr>toknext := toknext p + 1\<rparr>,
                 mem(nat (toknext p) \<mapsto>
                   \<lparr>t_start = 0, t_end = 0, t_line = 0, t_size = 0, t_token = UNASSIGN\<rparr>)))"

definition csvn_fill_token ::
  "tokmem \<Rightarrow> nat \<Rightarrow> int \<Rightarrow> int \<Rightarrow> int \<Rightarrow> csv_tok \<Rightarrow> tokmem" where
  "csvn_fill_token mem i start end' ln tok =
     mem(i \<mapsto> \<lparr>t_start = start, t_end = end', t_line = ln, t_size = end' - start,
               t_token = tok\<rparr>)"

section \<open>The quoted-field scanner\<close>

text \<open>The while loop of csvn_parse_quotes; it changes pos and line only.\<close>

function quotes_loop :: "string \<Rightarrow> nat \<Rightarrow> csv_p \<Rightarrow> csv_p" where
  "quotes_loop text textlen p =
     (if text_at text (pos p) \<noteq> NUL \<and> lt_size (pos p) textlen then
        if text_at text (pos p) = DQ \<and> text_at text (pos p + 1) = DQ then
          quotes_loop text textlen (p\<lparr>pos := pos p + 2\<rparr>)
        else if text_at text (pos p) = DQ \<and> text_at text (pos p + 1) \<noteq> DQ then p
        else
          quotes_loop text textlen
            ((if text_at text (pos p) = CSVN_NEWLINE then p\<lparr>line := line p + 1\<rparr> else p)
               \<lparr>pos := pos p + 1\<rparr>)
      else p)"
  by pat_completeness auto
termination
  by (relation "measure (\<lambda>(text, textlen, p). nat (int textlen - pos p))")
     (auto simp: lt_size_def)

declare quotes_loop.simps [simp del]

definition csvn_parse_quotes ::
  "string \<Rightarrow> nat \<Rightarrow> csv_p \<Rightarrow> tokmem option \<Rightarrow> nat
     \<Rightarrow> csv_err option \<times> csv_p \<times> tokmem option" where
  "csvn_parse_quotes text textlen p tokpool num_tok =
     (let start = pos p;
          ln = line p;
          p1 = quotes_loop text textlen p;
          end' = pos p1 - 1
      in case tokpool of
           None \<Rightarrow> (None, p1, tokpool)
         | Some _ \<Rightarrow>
             (case csvn_allocate_token p1 tokpool num_tok of
                None \<Rightarrow> (Some NOT_ENOUGH_MEM, p1, tokpool)
              | Some (i, p2, mem) \<Rightarrow>
                  (None, p2, Some (csvn_fill_token mem i start end' ln DQUOTE))))"

section \<open>The unquoted-field scanner\<close>

text \<open>
  The for loop of csvn_parse_normal. Under CSVN_STRICT its body returns
  INVALID_CHARACTER at a quote byte, with pos left on that byte.
\<close>

function normal_loop :: "config \<Rightarrow> string \<Rightarrow> nat \<Rightarrow> csv_p \<Rightarrow> csv_err option \<times> csv_p" where
  "normal_loop cfg text textlen p =
     (if text_at text (pos p) \<noteq> NUL \<and> lt_size (pos p) textlen \<and>
         text_at text (pos p) \<noteq> CSVN_NEWLINE \<and> text_at text (pos p) \<noteq> CSVN_DELIM then
        if strict cfg \<and> text_at text (pos p) = DQ then (Some INVALID_CHARACTER, p)
        else normal_loop cfg text textlen (p\<lparr>pos := pos p + 1\<rparr>)
      else (None, p))"
  by pat_completeness auto
termination
  by (relation "measure (\<lambda>(cfg, text, textlen, p). nat (int textlen - pos p))")
     (auto simp: lt_size_def)

declare normal_loop.simps [simp del]

definition csvn_parse_normal ::
  "config \<Rightarrow> string \<Rightarrow> nat \<Rightarrow> csv_p \<Rightarrow> tokmem option \<Rightarrow> nat
     \<Rightarrow> csv_err option \<times> csv_p \<times> tokmem option" where
  "csvn_parse_normal cfg text textlen p tokpool num_tok =
     (let start = pos p;
          ln = line p
      in case normal_loop cfg text textlen p of
           (Some e, p1) \<Rightarrow> (Some e, p1, tokpool)
         | (None, p1) \<Rightarrow>
             (let p2 = (if text_at text (pos p1) = CSVN_NEWLINE \<or>
                           text_at text (pos p1) = CSVN_DELIM
                        then p1\<lparr>pos := pos p1 - 1\<rparr> else p1);
                  end' = pos p2
              in case tokpool of
                   None \<Rightarrow> (None, p2, tokpool)
                 | Some _ \<Rightarrow>
                     (case csvn_allocate_token p2 tokpool num_tok of
                        None \<Rightarrow> (Some NOT_ENOUGH_MEM, p2, tokpool)
                      | Some (i, p3, mem) \<Rightarrow>
                          (None, p3, Some (csvn_fill_token mem i start end' ln DQUOTE)))))"

section \<open>The dispatch loop\<close>

text \<open>
  The do-while loop under CSVN_SKIP_WHITESPACE: advance, then repeat while the byte under
  the cursor is a space. The code does not compare pos with textlen here; the run of
  spaces ends at the terminator at the latest.
\<close>

function skip_spaces :: "string \<Rightarrow> csv_p \<Rightarrow> csv_p" where
  "skip_spaces text p =
     (let p' = p\<lparr>pos := pos p + 1\<rparr>
      in if text_at text (pos p') = SPACE then skip_spaces text p' else p')"
  by pat_completeness auto
termination
  by (relation "measure (\<lambda>(text, p). nat (int (length text) - pos p))")
     (auto simp: text_at_def NUL_def SPACE_def split: if_splits)

declare skip_spaces.simps [simp del]

text \<open>
  One iteration of the while loop of csvn_parse, that is the switch statement. The body
  either falls through to the next test of the loop condition (\<open>Continue\<close>, with the new
  parser state, pool and count) or returns an error code from csvn_parse (\<open>Return\<close>).
\<close>

datatype loop_step =
  Continue csv_p "tokmem option" int
| Return csv_err csv_p "tokmem option"

definition parse_step ::
  "config \<Rightarrow> string \<Rightarrow> nat \<Rightarrow> nat \<Rightarrow> csv_p \<Rightarrow> tokmem option \<Rightarrow> int \<Rightarrow> loop_step" where
  "parse_step cfg text textlen num_tok p tokpool parsed =
     (if text_at text (pos p) = CSVN_NEWLINE then
        Continue (p\<lparr>line := line p + 1, pos := pos p + 1\<rparr>) tokpool parsed
      else if text_at text (pos p) = CSVN_DELIM then
        (let p1 = p\<lparr>pos := pos p + 1\<rparr>;
             p2 = (if skip_whitespace cfg \<and> text_at text (pos p1) = SPACE
                   then skip_spaces text p1 else p1)
         in if text_at text (pos p2) = CSVN_DELIM then
              if no_empty_field cfg then Return INVALID_CHARACTER p2 tokpool
              else if ignore_empty_field cfg then Continue p2 tokpool parsed
              else
                (case tokpool of
                   None \<Rightarrow> Continue p2 tokpool (parsed + 1)
                 | Some _ \<Rightarrow>
                     (case csvn_allocate_token p2 tokpool num_tok of
                        None \<Rightarrow> Return NOT_ENOUGH_MEM p2 tokpool
                      | Some (i, p3, mem) \<Rightarrow>
                          Continue p3
                            (Some (csvn_fill_token mem i (pos p3 - 1) (pos p3) (line p3) EMPTY))
                            (parsed + 1)))
            else Continue p2 tokpool parsed)
      else if text_at text (pos p) = DQ then
        (case csvn_parse_quotes text textlen (p\<lparr>pos := pos p + 1\<rparr>) tokpool num_tok of
           (Some e, p2, tp) \<Rightarrow> Return e p2 tp
         | (None, p2, tp) \<Rightarrow>
             (let p3 = p2\<lparr>pos := pos p2 + 1\<rparr>
              in if strict cfg then
                   if text_at text (pos p3) = CSVN_DELIM \<or>
                      text_at text (pos p3) = CSVN_NEWLINE
                   then Continue p3 tp (parsed + 1)
                   else if text_at text (pos p3) \<noteq> NUL \<and> lt_size (pos p3) textlen
                   then Return INVALID_CHARACTER p3 tp
                   else Continue p3 tp (parsed + 1)
                 else Continue p3 tp (parsed + 1)))
      else
        (case csvn_parse_normal cfg text textlen p tokpool num_tok of
           (Some e, p2, tp) \<Rightarrow> Return e p2 tp
         | (None, p2, tp) \<Rightarrow> Continue (p2\<lparr>pos := pos p2 + 1\<rparr>) tp (parsed + 1)))"

subsection \<open>Progress of the scanners\<close>

text \<open>
  The inner loops never move the cursor backwards and never touch toknext. These facts
  give the variant of the dispatch loop.
\<close>

lemma quotes_loop_pos: "pos p \<le> pos (quotes_loop tx textlen p)"
proof (induction tx textlen p rule: quotes_loop.induct)
  case (1 tx textlen p)
  show ?case
    using "1.IH" by (subst quotes_loop.simps) (auto split: if_splits)
qed

lemma quotes_loop_toknext: "toknext (quotes_loop tx textlen p) = toknext p"
proof (induction tx textlen p rule: quotes_loop.induct)
  case (1 tx textlen p)
  show ?case
    using "1.IH" by (subst quotes_loop.simps) (auto split: if_splits)
qed

lemma normal_loop_pos: "pos p \<le> pos (snd (normal_loop cfg tx textlen p))"
proof (induction cfg tx textlen p rule: normal_loop.induct)
  case (1 cfg tx textlen p)
  show ?case
    using "1.IH" by (subst normal_loop.simps) (auto split: if_splits)
qed

lemma normal_loop_toknext: "toknext (snd (normal_loop cfg tx textlen p)) = toknext p"
proof (induction cfg tx textlen p rule: normal_loop.induct)
  case (1 cfg tx textlen p)
  show ?case
    using "1.IH" by (subst normal_loop.simps) (auto split: if_splits)
qed

lemma skip_spaces_pos: "pos p < pos (skip_spaces tx p)"
proof (induction tx p rule: skip_spaces.induct)
  case (1 tx p)
  show ?case
    using "1.IH" by (subst skip_spaces.simps) (auto simp: Let_def split: if_splits)
qed

lemma normal_loop_first:
  assumes "text_at tx (pos p) \<noteq> NUL" "lt_size (pos p) textlen"
    "text_at tx (pos p) \<noteq> CSVN_NEWLINE" "text_at tx (pos p) \<noteq> CSVN_DELIM"
    "text_at tx (pos p) \<noteq> DQ"
  shows "pos p + 1 \<le> pos (snd (normal_loop cfg tx textlen p))"
proof -
  have "normal_loop cfg tx textlen p = normal_loop cfg tx textlen (p\<lparr>pos := pos p + 1\<rparr>)"
    using assms by (subst normal_loop.simps) simp
  then show ?thesis
    using normal_loop_pos [of "p\<lparr>pos := pos p + 1\<rparr>" cfg tx textlen] by simp
qed

lemma csvn_parse_normal_pos:
  assumes "text_at tx (pos p) \<noteq> NUL" "lt_size (pos p) textlen"
    "text_at tx (pos p) \<noteq> CSVN_NEWLINE" "text_at tx (pos p) \<noteq> CSVN_DELIM"
    "text_at tx (pos p) \<noteq> DQ"
    and "csvn_parse_normal cfg tx textlen p tokpool num_tok = (r, p', tp')"
  shows "pos p \<le> pos p'"
  using normal_loop_first [OF assms(1-5), of cfg] assms(6)
  by (auto simp: csvn_parse_normal_def csvn_allocate_token_def Let_def
           split: prod.splits option.splits if_splits)

lemma csvn_parse_quotes_pos:
  assumes "csvn_parse_quotes tx textlen p tokpool num_tok = (r, p', tp')"
  shows "pos p \<le> pos p'"
  using quotes_loop_pos [of p tx textlen] assms
  by (auto simp: csvn_parse_quotes_def csvn_allocate_token_def Let_def
           split: prod.splits option.splits if_splits)

lemma parse_step_Continue_pos:
  assumes "text_at tx (pos p) \<noteq> NUL" "lt_size (pos p) textlen"
    and "parse_step cfg tx textlen num_tok p tokpool parsed = Continue p' tp' parsed'"
  shows "pos p < pos p'"
proof -
  consider (nl) "text_at tx (pos p) = CSVN_NEWLINE"
    | (delim) "text_at tx (pos p) \<noteq> CSVN_NEWLINE" "text_at tx (pos p) = CSVN_DELIM"
    | (quote) "text_at tx (pos p) \<noteq> CSVN_NEWLINE" "text_at tx (pos p) \<noteq> CSVN_DELIM"
        "text_at tx (pos p) = DQ"
    | (other) "text_at tx (pos p) \<noteq> CSVN_NEWLINE" "text_at tx (pos p) \<noteq> CSVN_DELIM"
        "text_at tx (pos p) \<noteq> DQ"
    by blast
  then show ?thesis
  proof cases
    case nl
    with assms(3) show ?thesis by (auto simp: parse_step_def)
  next
    case delim
    with assms(3) skip_spaces_pos [of "p\<lparr>pos := pos p + 1\<rparr>" tx] show ?thesis
      by (auto simp: parse_step_def csvn_allocate_token_def Let_def
               split: option.splits if_splits)
  next
    case quote
    obtain r q tq where q: "csvn_parse_quotes tx textlen (p\<lparr>pos := pos p + 1\<rparr>) tokpool num_tok = (r, q, tq)"
      by (cases "csvn_parse_quotes tx textlen (p\<lparr>pos := pos p + 1\<rparr>) tokpool num_tok") auto
    from csvn_parse_quotes_pos [OF q] have "pos p + 1 \<le> pos q" by simp
    with quote q assms(3) show ?thesis
      by (auto simp: parse_step_def Let_def split: option.splits if_splits)
  next
    case other
    obtain r q tq where q: "csvn_parse_normal cfg tx textlen p tokpool num_tok = (r, q, tq)"
      by (cases "csvn_parse_normal cfg tx textlen p tokpool num_tok") auto
    from csvn_parse_normal_pos [OF assms(1,2) other q] have "pos p \<le> pos q" .
    with other q assms(3) show ?thesis
      by (auto simp: parse_step_def Let_def split: option.splits if_splits)
  qed
qed

subsection \<open>The loop of csvn_parse\<close>

text \<open>
  The while loop of csvn_parse over the parser state, the pool and the count
  \<^verbatim>\<open>parsed\<close>. It returns the count when the loop condition fails and the error code
  of the iteration that returns one; the parser state and the pool are returned as the
  call leaves them. The loop terminates because every iteration that falls through moves
  pos towards textlen.
\<close>

function parse_loop ::
  "config \<Rightarrow> string \<Rightarrow> nat \<Rightarrow> nat \<Rightarrow> csv_p \<Rightarrow> tokmem option \<Rightarrow> int
     \<Rightarrow> (csv_err + int) \<times> csv_p \<times> tokmem option" where
  "parse_loop cfg text textlen num_tok p tokpool parsed =
     (if text_at text (pos p) \<noteq> NUL \<and> lt_size (pos p) textlen then
        case parse_step cfg text textlen num_tok p tokpool parsed of
          Return e p' tp' \<Rightarrow> (Inl e, p', tp')
        | Continue p' tp' parsed' \<Rightarrow> parse_loop cfg text textlen num_tok p' tp' parsed'
      else (Inr parsed, p, tokpool))"
  by pat_completeness auto
termination
proof (relation
    "measure (\<lambda>(cfg, tx, textlen, num_tok, p, tokpool, parsed). nat (int textlen - pos p))")
  show "wf (measure
      (\<lambda>(cfg, tx, textlen, num_tok, p, tokpool, parsed). nat (int textlen - pos p)))"
    by simp
next
  fix cfg :: config and tx textlen num_tok p and tokpool :: "tokmem option" and parsed :: int
    and p' tp' parsed'
  assume c: "text_at tx (pos p) \<noteq> NUL \<and> lt_size (pos p) textlen"
    and s: "parse_step cfg tx textlen num_tok p tokpool parsed = Continue p' tp' parsed'"
  from c s have "pos p < pos p'" by (blast intro: parse_step_Continue_pos)
  with c show
    "((cfg, tx, textlen, num_tok, p', tp', parsed'),
      (cfg, tx, textlen, num_tok, p, tokpool, parsed))
      \<in> measure
          (\<lambda>(cfg, tx, textlen, num_tok, p, tokpool, parsed). nat (int textlen - pos p))"
    by (simp add: lt_size_def)
qed

declare parse_loop.simps [simp del]

text \<open>csvn_parse: the loop, started with the count 0.\<close>

definition csvn_parse ::
  "config \<Rightarrow> string \<Rightarrow> nat \<Rightarrow> csv_p \<Rightarrow> tokmem option \<Rightarrow> nat
     \<Rightarrow> (csv_err + int) \<times> csv_p \<times> tokmem option" where
  "csvn_parse cfg text textlen p tokpool num_tok =
     parse_loop cfg text textlen num_tok p tokpool 0"

section \<open>Notions used in the statements\<close>

subsection \<open>Observing a result\<close>

text \<open>
  csvn_parse yields the returned value (an error code or the count), the parser state
  and the pool as it leaves them. \<open>slot_of\<close> reads a slot of a pool, \<open>slot\<close> a slot of the
  pool in a result, and \<open>field_text\<close> the bytes of the text between a descriptor's start
  and end, both inclusive. \<open>fresh\<close> is a parser state right after csvn_init.
\<close>

definition slot_of :: "tokmem option \<Rightarrow> nat \<Rightarrow> csv_t option" where
  "slot_of tp i = (case tp of None \<Rightarrow> None | Some mem \<Rightarrow> mem i)"

definition slot :: "(csv_err + int) \<times> csv_p \<times> tokmem option \<Rightarrow> nat \<Rightarrow> csv_t option" where
  "slot res i = slot_of (snd (snd res)) i"

definition field_text :: "string \<Rightarrow> csv_t \<Rightarrow> string" where
  "field_text text t = map (text_at text) [t_start t .. t_end t]"

definition fresh :: csv_p where
  "fresh = csvn_init \<lparr>pos = 0, toknext = 0, line = 0\<rparr>"

subsection \<open>Parts of an iteration\<close>

text \<open>Two parser states with the same cursor: they agree on pos and line.\<close>

definition same_cursor :: "csv_p \<Rightarrow> csv_p \<Rightarrow> bool" where
  "same_cursor p q = (pos p = pos q \<and> line p = line q)"

text \<open>
  The parser state that csvn_parse_normal leaves when its loop ends in p1 without an
  error: one byte back when the loop stopped on a newline or a delimiter.
\<close>

definition normal_end :: "string \<Rightarrow> csv_p \<Rightarrow> csv_p" where
  "normal_end text p1 =
     (if text_at text (pos p1) = CSVN_NEWLINE \<or> text_at text (pos p1) = CSVN_DELIM
      then p1\<lparr>pos := pos p1 - 1\<rparr> else p1)"

text \<open>
  The parser state of the delimiter case of the switch after the delimiter under the
  cursor and, under CSVN_SKIP_WHITESPACE, the spaces behind it.
\<close>

definition after_delim :: "config \<Rightarrow> string \<Rightarrow> csv_p \<Rightarrow> csv_p" where
  "after_delim cfg text p =
     (if skip_whitespace cfg \<and> text_at text (pos p + 1) = SPACE
      then skip_spaces text (p\<lparr>pos := pos p + 1\<rparr>) else p\<lparr>pos := pos p + 1\<rparr>)"

text \<open>
  The test after a closing quote under CSVN_STRICT: the byte at offset i is rejected when
  it is neither the delimiter nor the newline and the text has not ended there.
\<close>

definition strict_reject :: "config \<Rightarrow> string \<Rightarrow> nat \<Rightarrow> int \<Rightarrow> bool" where
  "strict_reject cfg text textlen i =
     (strict cfg \<and> text_at text i \<noteq> CSVN_DELIM \<and> text_at text i \<noteq> CSVN_NEWLINE \<and>
      text_at text i \<noteq> NUL \<and> lt_size i textlen)"

text \<open>
  The offset of the byte after the closing quote of the quoted field whose opening quote
  is under the cursor of p.
\<close>

definition after_closing_quote :: "string \<Rightarrow> nat \<Rightarrow> csv_p \<Rightarrow> int" where
  "after_closing_quote text textlen p =
     pos (quotes_loop text textlen (p\<lparr>pos := pos p + 1\<rparr>)) + 1"

text \<open>
  One iteration without a pool (C) against the same iteration with a pool (S), started
  with the same cursor and the count n: S ends as C does and takes one slot for each field
  that C counts, unless the allocator refuses the slot.
\<close>

definition step_sim :: "nat \<Rightarrow> csv_p \<Rightarrow> int \<Rightarrow> loop_step \<Rightarrow> loop_step \<Rightarrow> bool" where
  "step_sim num_tok ps n C S =
     (case C of
        Return e pc' tc' \<Rightarrow>
          (case S of
             Return e' ps' ts' \<Rightarrow> e' = e \<or> e' = NOT_ENOUGH_MEM
           | Continue ps' ts' n'' \<Rightarrow> False)
      | Continue pc' tc' n' \<Rightarrow>
          tc' = None \<and> n \<le> n' \<and>
          (case S of
             Continue ps' ts' n'' \<Rightarrow>
               n'' = n' \<and> ts' \<noteq> None \<and> same_cursor ps' pc' \<and>
               toknext ps' = toknext ps + (n' - n)
           | Return e' ps' ts' \<Rightarrow>
               e' = NOT_ENOUGH_MEM \<and> gt_size (toknext ps) num_tok \<and> n' = n + 1))"

subsection \<open>The sequence of iterations\<close>

text \<open>
  Two consecutive tests of the loop condition of csvn_parse: \<open>loop_next s s'\<close> holds when
  the condition holds in the state s (parser state, pool, count) and the iteration
  started there falls through to the next test in the state s'.
\<close>

definition loop_next ::
  "config \<Rightarrow> string \<Rightarrow> nat \<Rightarrow> nat \<Rightarrow> csv_p \<times> tokmem option \<times> int
     \<Rightarrow> csv_p \<times> tokmem option \<times> int \<Rightarrow> bool" where
  "loop_next cfg text textlen num_tok s s' =
     (text_at text (pos (fst s)) \<noteq> NUL \<and> lt_size (pos (fst s)) textlen \<and>
      parse_step cfg text textlen num_tok (fst s) (fst (snd s)) (snd (snd s)) =
        Continue (fst s') (fst (snd s')) (snd (snd s')))"

text \<open>
  The dispatch loop cut off after a number of iterations: the result is \<open>None\<close> when the
  loop condition still holds after \<open>fuel\<close> iterations.
\<close>

fun parse_fuel ::
  "nat \<Rightarrow> config \<Rightarrow> string \<Rightarrow> nat \<Rightarrow> nat \<Rightarrow> csv_p \<Rightarrow> tokmem option \<Rightarrow> int
     \<Rightarrow> ((csv_err + int) \<times> csv_p \<times> tokmem option) option" where
  "parse_fuel 0 cfg text textlen num_tok p tokpool parsed =
     (if text_at text (pos p) \<noteq> NUL \<and> lt_size (pos p) textlen then None
      else Some (Inr parsed, p, tokpool))"
| "parse_fuel (Suc fuel) cfg text textlen num_tok p tokpool parsed =
     (if text_at text (pos p) \<noteq> NUL \<and> lt_size (pos p) textlen then
        case parse_step cfg text textlen num_tok p tokpool parsed of
          Return e p' tp' \<Rightarrow> Some (Inl e, p', tp')
        | Continue p' tp' parsed' \<Rightarrow> parse_fuel fuel cfg text textlen num_tok p' tp' parsed'
      else Some (Inr parsed, p, tokpool))"

subsection \<open>Evaluation\<close>

text \<open>The equations that evaluate a parse of a concrete text.\<close>

lemmas csvn_eval =
  csvn_parse_def parse_loop.simps parse_step_def csvn_parse_normal_def normal_loop.simps
  csvn_parse_quotes_def quotes_loop.simps
  csvn_allocate_token_def csvn_fill_token_def csvn_init_def text_at_def lt_size_def gt_size_def
  NUL_def DQ_def CSVN_DELIM_def CSVN_NEWLINE_def SPACE_def Let_def slot_def slot_of_def

section \<open>Properties of the scanners and of one iteration\<close>

lemma skip_spaces_toknext: "toknext (skip_spaces tx p) = toknext p"
proof (induction tx p rule: skip_spaces.induct)
  case (1 tx p)
  show ?case
    using "1.IH" by (subst skip_spaces.simps) (auto simp: Let_def split: if_splits)
qed

lemma quotes_loop_same_cursor:
  "same_cursor p q \<Longrightarrow> same_cursor (quotes_loop tx textlen p) (quotes_loop tx textlen q)"
proof (induction tx textlen p arbitrary: q rule: quotes_loop.induct)
  case (1 tx textlen p)
  from "1.prems" have pq: "pos q = pos p" "line q = line p"
    by (simp_all add: same_cursor_def)
  show ?case
  proof (cases "text_at tx (pos p) \<noteq> NUL \<and> lt_size (pos p) textlen")
    case False
    then show ?thesis
      using "1.prems" pq by (auto simp: quotes_loop.simps [of tx textlen p] quotes_loop.simps [of tx textlen q])
  next
    case c: True
    show ?thesis
    proof (cases "text_at tx (pos p) = DQ \<and> text_at tx (pos p + 1) = DQ")
      case True
      have "same_cursor (quotes_loop tx textlen (p\<lparr>pos := pos p + 2\<rparr>))
              (quotes_loop tx textlen (q\<lparr>pos := pos q + 2\<rparr>))"
        using c True pq by (intro "1.IH"(1)) (simp_all add: same_cursor_def)
      then show ?thesis
        using c True pq by (auto simp: quotes_loop.simps [of tx textlen p] quotes_loop.simps [of tx textlen q])
    next
      case nd: False
      show ?thesis
      proof (cases "text_at tx (pos p) = DQ \<and> text_at tx (pos p + 1) \<noteq> DQ")
        case True
        then show ?thesis
          using c nd pq "1.prems" by (auto simp: quotes_loop.simps [of tx textlen p] quotes_loop.simps [of tx textlen q])
      next
        case False
        have "same_cursor
                (quotes_loop tx textlen
                  ((if text_at tx (pos p) = CSVN_NEWLINE then p\<lparr>line := line p + 1\<rparr> else p)
                     \<lparr>pos := pos p + 1\<rparr>))
                (quotes_loop tx textlen
                  ((if text_at tx (pos q) = CSVN_NEWLINE then q\<lparr>line := line q + 1\<rparr> else q)
                     \<lparr>pos := pos q + 1\<rparr>))"
          using c nd False pq by (intro "1.IH"(2)) (simp_all add: same_cursor_def)
        then show ?thesis
          using c nd False pq by (auto simp: quotes_loop.simps [of tx textlen p] quotes_loop.simps [of tx textlen q])
      qed
    qed
  qed
qed

lemma normal_loop_same_cursor:
  "same_cursor p q \<Longrightarrow>
     fst (normal_loop cfg tx textlen p) = fst (normal_loop cfg tx textlen q) \<and>
     same_cursor (snd (normal_loop cfg tx textlen p)) (snd (normal_loop cfg tx textlen q))"
proof (induction cfg tx textlen p arbitrary: q rule: normal_loop.induct)
  case (1 cfg tx textlen p)
  from "1.prems" have pq: "pos q = pos p" "line q = line p"
    by (simp_all add: same_cursor_def)
  show ?case
  proof (cases "text_at tx (pos p) \<noteq> NUL \<and> lt_size (pos p) textlen \<and>
         text_at tx (pos p) \<noteq> CSVN_NEWLINE \<and> text_at tx (pos p) \<noteq> CSVN_DELIM")
    case False
    then show ?thesis
      using "1.prems" pq
      by (auto simp: normal_loop.simps [of cfg tx textlen p] normal_loop.simps [of cfg tx textlen q])
  next
    case c: True
    show ?thesis
    proof (cases "strict cfg \<and> text_at tx (pos p) = DQ")
      case True
      then show ?thesis
        using c "1.prems" pq
        by (auto simp: normal_loop.simps [of cfg tx textlen p] normal_loop.simps [of cfg tx textlen q])
    next
      case False
      have "fst (normal_loop cfg tx textlen (p\<lparr>pos := pos p + 1\<rparr>)) =
              fst (normal_loop cfg tx textlen (q\<lparr>pos := pos q + 1\<rparr>)) \<and>
            same_cursor (snd (normal_loop cfg tx textlen (p\<lparr>pos := pos p + 1\<rparr>)))
              (snd (normal_loop cfg tx textlen (q\<lparr>pos := pos q + 1\<rparr>)))"
        using c False pq by (intro "1.IH") (simp_all add: same_cursor_def)
      then show ?thesis
        using c False pq
        by (auto simp: normal_loop.simps [of cfg tx textlen p] normal_loop.simps [of cfg tx textlen q])
    qed
  qed
qed

lemma skip_spaces_same_cursor:
  "same_cursor p q \<Longrightarrow> same_cursor (skip_spaces tx p) (skip_spaces tx q)"
proof (induction tx p arbitrary: q rule: skip_spaces.induct)
  case (1 tx p)
  from "1.prems" have pq: "pos q = pos p" "line q = line p"
    by (simp_all add: same_cursor_def)
  show ?case
  proof (cases "text_at tx (pos p + 1) = SPACE")
    case True
    have "same_cursor (skip_spaces tx (p\<lparr>pos := pos p + 1\<rparr>)) (skip_spaces tx (q\<lparr>pos := pos q + 1\<rparr>))"
      using True pq by (intro "1.IH") (simp_all add: same_cursor_def)
    then show ?thesis
      using True pq
      by (simp add: skip_spaces.simps [of tx p] skip_spaces.simps [of tx q] Let_def)
  next
    case False
    then show ?thesis
      using pq
      by (simp add: skip_spaces.simps [of tx p] skip_spaces.simps [of tx q] Let_def same_cursor_def)
  qed
qed

lemma normal_loop_error:
  "fst (normal_loop cfg tx textlen p) = Some e \<Longrightarrow> strict cfg \<and> e = INVALID_CHARACTER"
proof (induction cfg tx textlen p rule: normal_loop.induct)
  case (1 cfg tx textlen p)
  then show ?case
    by (auto simp: normal_loop.simps [of cfg tx textlen p] split: if_splits)
qed

lemma csvn_parse_quotes_None:
  "csvn_parse_quotes tx textlen p None k = (None, quotes_loop tx textlen p, None)"
  by (simp add: csvn_parse_quotes_def)

lemma csvn_parse_quotes_Some:
  "csvn_parse_quotes tx textlen p (Some mem) num_tok =
     (if gt_size (toknext p) num_tok
      then (Some NOT_ENOUGH_MEM, quotes_loop tx textlen p, Some mem)
      else (None, (quotes_loop tx textlen p)\<lparr>toknext := toknext p + 1\<rparr>,
            Some (csvn_fill_token
                    (mem(nat (toknext p) \<mapsto>
                       \<lparr>t_start = 0, t_end = 0, t_line = 0, t_size = 0, t_token = UNASSIGN\<rparr>))
                    (nat (toknext p)) (pos p) (pos (quotes_loop tx textlen p) - 1) (line p)
                    DQUOTE)))"
  by (simp add: csvn_parse_quotes_def csvn_allocate_token_def quotes_loop_toknext Let_def)

lemma csvn_parse_normal_None:
  "csvn_parse_normal cfg tx textlen p None k =
     (case fst (normal_loop cfg tx textlen p) of
        Some e \<Rightarrow> (Some e, snd (normal_loop cfg tx textlen p), None)
      | None \<Rightarrow> (None, normal_end tx (snd (normal_loop cfg tx textlen p)), None))"
  by (simp add: csvn_parse_normal_def normal_end_def Let_def split: prod.splits option.splits)

lemma csvn_parse_normal_Some:
  "csvn_parse_normal cfg tx textlen p (Some mem) num_tok =
     (case fst (normal_loop cfg tx textlen p) of
        Some e \<Rightarrow> (Some e, snd (normal_loop cfg tx textlen p), Some mem)
      | None \<Rightarrow>
          if gt_size (toknext p) num_tok
          then (Some NOT_ENOUGH_MEM, normal_end tx (snd (normal_loop cfg tx textlen p)), Some mem)
          else (None,
                (normal_end tx (snd (normal_loop cfg tx textlen p)))\<lparr>toknext := toknext p + 1\<rparr>,
                Some (csvn_fill_token
                        (mem(nat (toknext p) \<mapsto>
                           \<lparr>t_start = 0, t_end = 0, t_line = 0, t_size = 0, t_token = UNASSIGN\<rparr>))
                        (nat (toknext p)) (pos p)
                        (pos (normal_end tx (snd (normal_loop cfg tx textlen p)))) (line p)
                        DQUOTE)))"
  using normal_loop_toknext [of cfg tx textlen p]
  by (auto simp: csvn_parse_normal_def csvn_allocate_token_def normal_end_def Let_def
        split: prod.splits option.splits)

lemma normal_end_same_cursor:
  "same_cursor p q \<Longrightarrow> same_cursor (normal_end tx p) (normal_end tx q)"
  by (auto simp: normal_end_def same_cursor_def)

lemma after_delim_same_cursor:
  "same_cursor p q \<Longrightarrow> same_cursor (after_delim cfg tx p) (after_delim cfg tx q)"
proof -
  assume sc: "same_cursor p q"
  then have "same_cursor (p\<lparr>pos := pos p + 1\<rparr>) (q\<lparr>pos := pos q + 1\<rparr>)"
    by (simp add: same_cursor_def)
  from skip_spaces_same_cursor [OF this, of tx] this sc show ?thesis
    by (auto simp: after_delim_def same_cursor_def)
qed

lemma after_delim_toknext: "toknext (after_delim cfg tx p) = toknext p"
  by (simp add: after_delim_def skip_spaces_toknext)

lemma parse_step_delim:
  assumes "text_at tx (pos p) \<noteq> CSVN_NEWLINE" "text_at tx (pos p) = CSVN_DELIM"
  shows "parse_step cfg tx textlen num_tok p tokpool parsed =
     (if text_at tx (pos (after_delim cfg tx p)) = CSVN_DELIM then
        if no_empty_field cfg then Return INVALID_CHARACTER (after_delim cfg tx p) tokpool
        else if ignore_empty_field cfg then Continue (after_delim cfg tx p) tokpool parsed
        else
          (case tokpool of
             None \<Rightarrow> Continue (after_delim cfg tx p) tokpool (parsed + 1)
           | Some mem \<Rightarrow>
               if gt_size (toknext p) num_tok
               then Return NOT_ENOUGH_MEM (after_delim cfg tx p) tokpool
               else Continue ((after_delim cfg tx p)\<lparr>toknext := toknext p + 1\<rparr>)
                      (Some (csvn_fill_token
                         (mem(nat (toknext p) \<mapsto>
                            \<lparr>t_start = 0, t_end = 0, t_line = 0, t_size = 0, t_token = UNASSIGN\<rparr>))
                         (nat (toknext p)) (pos (after_delim cfg tx p) - 1)
                         (pos (after_delim cfg tx p)) (line (after_delim cfg tx p)) EMPTY))
                      (parsed + 1))
      else Continue (after_delim cfg tx p) tokpool parsed)"
  using assms after_delim_toknext [of cfg tx p]
  by (auto simp: parse_step_def after_delim_def csvn_allocate_token_def Let_def
        split: option.splits)

lemma parse_step_quote_None:
  assumes "text_at tx (pos p) \<noteq> CSVN_NEWLINE" "text_at tx (pos p) \<noteq> CSVN_DELIM"
    "text_at tx (pos p) = DQ"
  shows "parse_step cfg tx textlen num_tok p None parsed =
     (if strict_reject cfg tx textlen (pos (quotes_loop tx textlen (p\<lparr>pos := pos p + 1\<rparr>)) + 1)
      then Return INVALID_CHARACTER
             ((quotes_loop tx textlen (p\<lparr>pos := pos p + 1\<rparr>))
                \<lparr>pos := pos (quotes_loop tx textlen (p\<lparr>pos := pos p + 1\<rparr>)) + 1\<rparr>) None
      else Continue
             ((quotes_loop tx textlen (p\<lparr>pos := pos p + 1\<rparr>))
                \<lparr>pos := pos (quotes_loop tx textlen (p\<lparr>pos := pos p + 1\<rparr>)) + 1\<rparr>) None
             (parsed + 1))"
  using assms
  by (auto simp: parse_step_def csvn_parse_quotes_None strict_reject_def Let_def)

lemma parse_step_quote_Some:
  assumes "text_at tx (pos p) \<noteq> CSVN_NEWLINE" "text_at tx (pos p) \<noteq> CSVN_DELIM"
    "text_at tx (pos p) = DQ"
  shows "\<exists>mem'. parse_step cfg tx textlen num_tok p (Some mem) parsed =
     (if gt_size (toknext p) num_tok
      then Return NOT_ENOUGH_MEM (quotes_loop tx textlen (p\<lparr>pos := pos p + 1\<rparr>)) (Some mem)
      else if strict_reject cfg tx textlen
                (pos (quotes_loop tx textlen (p\<lparr>pos := pos p + 1\<rparr>)) + 1)
      then Return INVALID_CHARACTER
             ((quotes_loop tx textlen (p\<lparr>pos := pos p + 1\<rparr>))
                \<lparr>pos := pos (quotes_loop tx textlen (p\<lparr>pos := pos p + 1\<rparr>)) + 1,
                 toknext := toknext p + 1\<rparr>) (Some mem')
      else Continue
             ((quotes_loop tx textlen (p\<lparr>pos := pos p + 1\<rparr>))
                \<lparr>pos := pos (quotes_loop tx textlen (p\<lparr>pos := pos p + 1\<rparr>)) + 1,
                 toknext := toknext p + 1\<rparr>) (Some mem')
             (parsed + 1))"
  using assms
  by (auto simp: parse_step_def csvn_parse_quotes_Some strict_reject_def Let_def)

lemma parse_step_other_None:
  assumes "text_at tx (pos p) \<noteq> CSVN_NEWLINE" "text_at tx (pos p) \<noteq> CSVN_DELIM"
    "text_at tx (pos p) \<noteq> DQ"
  shows "parse_step cfg tx textlen num_tok p None parsed =
     (case fst (normal_loop cfg tx textlen p) of
        Some e \<Rightarrow> Return e (snd (normal_loop cfg tx textlen p)) None
      | None \<Rightarrow>
          Continue
            ((normal_end tx (snd (normal_loop cfg tx textlen p)))
               \<lparr>pos := pos (normal_end tx (snd (normal_loop cfg tx textlen p))) + 1\<rparr>)
            None (parsed + 1))"
  using assms
  by (auto simp: parse_step_def csvn_parse_normal_None split: option.splits)

lemma parse_step_other_Some:
  assumes "text_at tx (pos p) \<noteq> CSVN_NEWLINE" "text_at tx (pos p) \<noteq> CSVN_DELIM"
    "text_at tx (pos p) \<noteq> DQ"
  shows "\<exists>mem'. parse_step cfg tx textlen num_tok p (Some mem) parsed =
     (case fst (normal_loop cfg tx textlen p) of
        Some e \<Rightarrow> Return e (snd (normal_loop cfg tx textlen p)) (Some mem)
      | None \<Rightarrow>
          if gt_size (toknext p) num_tok
          then Return NOT_ENOUGH_MEM (normal_end tx (snd (normal_loop cfg tx textlen p))) (Some mem)
          else
            Continue
              ((normal_end tx (snd (normal_loop cfg tx textlen p)))
                 \<lparr>pos := pos (normal_end tx (snd (normal_loop cfg tx textlen p))) + 1,
                  toknext := toknext p + 1\<rparr>)
              (Some mem') (parsed + 1))"
  using assms
  by (auto simp: parse_step_def csvn_parse_normal_Some split: option.splits)

lemma same_cursor_refl: "same_cursor p p"
  by (simp add: same_cursor_def)

lemma parse_step_sim:
  assumes sc: "same_cursor ps pc"
  shows "step_sim num_tok ps n (parse_step cfg tx textlen k pc None n)
           (parse_step cfg tx textlen num_tok ps (Some mem) n)"
proof -
  from sc have pq: "pos ps = pos pc" "line ps = line pc"
    by (simp_all add: same_cursor_def)
  consider (nl) "text_at tx (pos pc) = CSVN_NEWLINE"
    | (delim) "text_at tx (pos pc) \<noteq> CSVN_NEWLINE" "text_at tx (pos pc) = CSVN_DELIM"
    | (quote) "text_at tx (pos pc) \<noteq> CSVN_NEWLINE" "text_at tx (pos pc) \<noteq> CSVN_DELIM"
        "text_at tx (pos pc) = DQ"
    | (other) "text_at tx (pos pc) \<noteq> CSVN_NEWLINE" "text_at tx (pos pc) \<noteq> CSVN_DELIM"
        "text_at tx (pos pc) \<noteq> DQ"
    by blast
  then show ?thesis
  proof cases
    case nl
    then show ?thesis
      using pq by (simp add: parse_step_def step_sim_def same_cursor_def)
  next
    case delim
    from after_delim_same_cursor [OF sc, of cfg tx]
    have a: "pos (after_delim cfg tx ps) = pos (after_delim cfg tx pc)"
      "line (after_delim cfg tx ps) = line (after_delim cfg tx pc)"
      by (simp_all add: same_cursor_def)
    from delim pq a show ?thesis
      by (simp add: parse_step_delim step_sim_def same_cursor_def after_delim_toknext)
  next
    case quote
    have "same_cursor (ps\<lparr>pos := pos ps + 1\<rparr>) (pc\<lparr>pos := pos pc + 1\<rparr>)"
      using pq by (simp add: same_cursor_def)
    from quotes_loop_same_cursor [OF this, of tx textlen]
    have a: "pos (quotes_loop tx textlen (ps\<lparr>pos := pos ps + 1\<rparr>)) =
             pos (quotes_loop tx textlen (pc\<lparr>pos := pos pc + 1\<rparr>))"
      "line (quotes_loop tx textlen (ps\<lparr>pos := pos ps + 1\<rparr>)) =
             line (quotes_loop tx textlen (pc\<lparr>pos := pos pc + 1\<rparr>))"
      by (simp_all add: same_cursor_def)
    from quote pq obtain mem' where
      "parse_step cfg tx textlen num_tok ps (Some mem) n =
        (if gt_size (toknext ps) num_tok
         then Return NOT_ENOUGH_MEM (quotes_loop tx textlen (ps\<lparr>pos := pos ps + 1\<rparr>)) (Some mem)
         else if strict_reject cfg tx textlen
                (pos (quotes_loop tx textlen (ps\<lparr>pos := pos ps + 1\<rparr>)) + 1)
         then Return INVALID_CHARACTER
             ((quotes_loop tx textlen (ps\<lparr>pos := pos ps + 1\<rparr>))
                \<lparr>pos := pos (quotes_loop tx textlen (ps\<lparr>pos := pos ps + 1\<rparr>)) + 1,
                 toknext := toknext ps + 1\<rparr>) (Some mem')
         else Continue
             ((quotes_loop tx textlen (ps\<lparr>pos := pos ps + 1\<rparr>))
                \<lparr>pos := pos (quotes_loop tx textlen (ps\<lparr>pos := pos ps + 1\<rparr>)) + 1,
                 toknext := toknext ps + 1\<rparr>) (Some mem')
             (n + 1))"
      using parse_step_quote_Some [of tx ps cfg textlen num_tok mem n] by auto
    with quote pq a show ?thesis
      by (simp add: parse_step_quote_None step_sim_def same_cursor_def)
  next
    case other
    from normal_loop_same_cursor [OF sc, of cfg tx textlen]
    have f: "fst (normal_loop cfg tx textlen ps) = fst (normal_loop cfg tx textlen pc)"
      and s: "same_cursor (snd (normal_loop cfg tx textlen ps)) (snd (normal_loop cfg tx textlen pc))"
      by simp_all
    from normal_end_same_cursor [OF s, of tx]
    have a: "pos (normal_end tx (snd (normal_loop cfg tx textlen ps))) =
             pos (normal_end tx (snd (normal_loop cfg tx textlen pc)))"
      "line (normal_end tx (snd (normal_loop cfg tx textlen ps))) =
             line (normal_end tx (snd (normal_loop cfg tx textlen pc)))"
      by (simp_all add: same_cursor_def)
    from other pq obtain mem' where
      "parse_step cfg tx textlen num_tok ps (Some mem) n =
        (case fst (normal_loop cfg tx textlen ps) of
           Some e \<Rightarrow> Return e (snd (normal_loop cfg tx textlen ps)) (Some mem)
         | None \<Rightarrow>
            if gt_size (toknext ps) num_tok
            then Return NOT_ENOUGH_MEM (normal_end tx (snd (normal_loop cfg tx textlen ps))) (Some mem)
            else
              Continue
                ((normal_end tx (snd (normal_loop cfg tx textlen ps)))
                   \<lparr>pos := pos (normal_end tx (snd (normal_loop cfg tx textlen ps))) + 1,
                    toknext := toknext ps + 1\<rparr>)
                (Some mem') (n + 1))"
      using parse_step_other_Some [of tx ps cfg textlen num_tok mem n] by auto
    with other pq a f show ?thesis
      by (simp add: parse_step_other_None step_sim_def same_cursor_def split: option.splits)
  qed
qed

lemma parse_step_None_Return:
  assumes "parse_step cfg tx textlen k p None n = Return e p' tp'"
  shows "e = INVALID_CHARACTER \<and> (strict cfg \<or> no_empty_field cfg)"
proof -
  consider (nl) "text_at tx (pos p) = CSVN_NEWLINE"
    | (delim) "text_at tx (pos p) \<noteq> CSVN_NEWLINE" "text_at tx (pos p) = CSVN_DELIM"
    | (quote) "text_at tx (pos p) \<noteq> CSVN_NEWLINE" "text_at tx (pos p) \<noteq> CSVN_DELIM"
        "text_at tx (pos p) = DQ"
    | (other) "text_at tx (pos p) \<noteq> CSVN_NEWLINE" "text_at tx (pos p) \<noteq> CSVN_DELIM"
        "text_at tx (pos p) \<noteq> DQ"
    by blast
  then show ?thesis
  proof cases
    case nl
    with assms show ?thesis by (simp add: parse_step_def)
  next
    case delim
    with assms show ?thesis
      by (auto simp: parse_step_delim split: if_splits)
  next
    case quote
    with assms show ?thesis
      by (auto simp: parse_step_quote_None strict_reject_def split: if_splits)
  next
    case other
    with assms normal_loop_error [of cfg tx textlen p] show ?thesis
      by (auto simp: parse_step_other_None split: option.splits)
  qed
qed

lemma parse_step_Return_pos:
  assumes "text_at tx (pos p) \<noteq> NUL" "lt_size (pos p) textlen"
    and "parse_step cfg tx textlen num_tok p tokpool parsed = Return e p' tp'"
  shows "pos p \<le> pos p'"
proof -
  consider (nl) "text_at tx (pos p) = CSVN_NEWLINE"
    | (delim) "text_at tx (pos p) \<noteq> CSVN_NEWLINE" "text_at tx (pos p) = CSVN_DELIM"
    | (quote) "text_at tx (pos p) \<noteq> CSVN_NEWLINE" "text_at tx (pos p) \<noteq> CSVN_DELIM"
        "text_at tx (pos p) = DQ"
    | (other) "text_at tx (pos p) \<noteq> CSVN_NEWLINE" "text_at tx (pos p) \<noteq> CSVN_DELIM"
        "text_at tx (pos p) \<noteq> DQ"
    by blast
  then show ?thesis
  proof cases
    case nl
    with assms(3) show ?thesis by (auto simp: parse_step_def)
  next
    case delim
    with assms(3) skip_spaces_pos [of "p\<lparr>pos := pos p + 1\<rparr>" tx] show ?thesis
      by (auto simp: parse_step_def csvn_allocate_token_def Let_def
               split: option.splits if_splits)
  next
    case quote
    obtain r q tq where
      q: "csvn_parse_quotes tx textlen (p\<lparr>pos := pos p + 1\<rparr>) tokpool num_tok = (r, q, tq)"
      by (cases "csvn_parse_quotes tx textlen (p\<lparr>pos := pos p + 1\<rparr>) tokpool num_tok") auto
    from csvn_parse_quotes_pos [OF q] have "pos p + 1 \<le> pos q" by simp
    with quote q assms(3) show ?thesis
      by (auto simp: parse_step_def Let_def split: option.splits if_splits)
  next
    case other
    obtain r q tq where q: "csvn_parse_normal cfg tx textlen p tokpool num_tok = (r, q, tq)"
      by (cases "csvn_parse_normal cfg tx textlen p tokpool num_tok") auto
    from csvn_parse_normal_pos [OF assms(1,2) other q] have "pos p \<le> pos q" .
    with other q assms(3) show ?thesis
      by (auto simp: parse_step_def Let_def split: option.splits if_splits)
  qed
qed

lemma parse_step_quote_pos:
  assumes "text_at tx (pos p) = DQ"
    and "parse_step cfg tx textlen num_tok p tokpool parsed = Continue p' tp' parsed'"
  shows "pos p + 2 \<le> pos p'"
proof -
  have ch: "text_at tx (pos p) \<noteq> CSVN_NEWLINE" "text_at tx (pos p) \<noteq> CSVN_DELIM"
    using assms(1) by (simp_all add: DQ_def CSVN_NEWLINE_def CSVN_DELIM_def)
  obtain r q tq where
    q: "csvn_parse_quotes tx textlen (p\<lparr>pos := pos p + 1\<rparr>) tokpool num_tok = (r, q, tq)"
    by (cases "csvn_parse_quotes tx textlen (p\<lparr>pos := pos p + 1\<rparr>) tokpool num_tok") auto
  from csvn_parse_quotes_pos [OF q] have "pos p + 1 \<le> pos q" by simp
  with ch q assms show ?thesis
    by (auto simp: parse_step_def Let_def split: option.splits if_splits)
qed

section \<open>Properties of the dispatch loop\<close>

lemma parse_loop_stop:
  "\<not> (text_at tx (pos p) \<noteq> NUL \<and> lt_size (pos p) textlen) \<Longrightarrow>
     parse_loop cfg tx textlen k p tp n = (Inr n, p, tp)"
  by (auto simp: parse_loop.simps [of cfg tx textlen k p tp n])

lemma parse_loop_Return:
  "text_at tx (pos p) \<noteq> NUL \<and> lt_size (pos p) textlen \<Longrightarrow>
     parse_step cfg tx textlen k p tp n = Return e p' tp' \<Longrightarrow>
     parse_loop cfg tx textlen k p tp n = (Inl e, p', tp')"
  by (simp add: parse_loop.simps [of cfg tx textlen k p tp n])

lemma parse_loop_Continue:
  "text_at tx (pos p) \<noteq> NUL \<and> lt_size (pos p) textlen \<Longrightarrow>
     parse_step cfg tx textlen k p tp n = Continue p' tp' n' \<Longrightarrow>
     parse_loop cfg tx textlen k p tp n = parse_loop cfg tx textlen k p' tp' n'"
  by (simp add: parse_loop.simps [of cfg tx textlen k p tp n])

lemma parse_loop_pos: "pos p \<le> pos (fst (snd (parse_loop cfg tx textlen k p tp n)))"
proof (induction cfg tx textlen k p tp n rule: parse_loop.induct)
  case (1 cfg tx textlen k p tp n)
  show ?case
  proof (cases "text_at tx (pos p) \<noteq> NUL \<and> lt_size (pos p) textlen")
    case False
    from parse_loop_stop [OF False, of cfg k tp n] show ?thesis
      by simp
  next
    case c: True
    show ?thesis
    proof (cases "parse_step cfg tx textlen k p tp n")
      case (Return e p' tp')
      from c Return have "pos p \<le> pos p'"
        by (blast intro: parse_step_Return_pos)
      with parse_loop_Return [OF c Return] show ?thesis
        by simp
    next
      case (Continue p' tp' n')
      from c Continue have "pos p < pos p'"
        by (blast intro: parse_step_Continue_pos)
      with "1.IH" [OF c Continue] parse_loop_Continue [OF c Continue] show ?thesis
        by simp
    qed
  qed
qed

lemma parse_loop_count_mono:
  "tp = None \<Longrightarrow> fst (parse_loop cfg tx textlen k p tp n) = Inr m \<Longrightarrow> n \<le> m"
proof (induction cfg tx textlen k p tp n rule: parse_loop.induct)
  case (1 cfg tx textlen k p tp n)
  show ?case
  proof (cases "text_at tx (pos p) \<noteq> NUL \<and> lt_size (pos p) textlen")
    case False
    from parse_loop_stop [OF False, of cfg k tp n] "1.prems" show ?thesis
      by simp
  next
    case c: True
    show ?thesis
    proof (cases "parse_step cfg tx textlen k p tp n")
      case (Return e p' tp')
      from parse_loop_Return [OF c Return] "1.prems" show ?thesis
        by simp
    next
      case (Continue p' tp' n')
      from parse_step_sim [OF same_cursor_refl, of k p n cfg tx textlen k Map.empty] Continue "1.prems"(1)
      have "tp' = None" "n \<le> n'"
        by (simp_all add: step_sim_def)
      moreover from parse_loop_Continue [OF c Continue] "1.prems"
      have "fst (parse_loop cfg tx textlen k p' tp' n') = Inr m"
        by simp
      ultimately show ?thesis
        using "1.IH" [OF c Continue] by simp
    qed
  qed
qed

lemma parse_loop_sim:
  "tp = None \<Longrightarrow> same_cursor ps pc \<Longrightarrow>
     fst (parse_loop cfg tx textlen num_tok ps (Some mem) n) =
       fst (parse_loop cfg tx textlen k pc tp n) \<or>
     fst (parse_loop cfg tx textlen num_tok ps (Some mem) n) = Inl NOT_ENOUGH_MEM"
proof (induction cfg tx textlen k pc tp n arbitrary: ps mem rule: parse_loop.induct)
  case (1 cfg tx textlen k pc tp n)
  from "1.prems" have pq: "pos ps = pos pc" and tp: "tp = None"
    by (simp_all add: same_cursor_def)
  show ?case
  proof (cases "text_at tx (pos pc) \<noteq> NUL \<and> lt_size (pos pc) textlen")
    case False
    then have "\<not> (text_at tx (pos ps) \<noteq> NUL \<and> lt_size (pos ps) textlen)"
      using pq by simp
    from parse_loop_stop [OF this, of cfg num_tok "Some mem" n]
      parse_loop_stop [OF False, of cfg k tp n]
    show ?thesis by simp
  next
    case c: True
    then have cs: "text_at tx (pos ps) \<noteq> NUL \<and> lt_size (pos ps) textlen"
      using pq by simp
    note sim = parse_step_sim [OF "1.prems"(2), of num_tok n cfg tx textlen k mem]
    show ?thesis
    proof (cases "parse_step cfg tx textlen k pc tp n")
      case (Return e pc' tc')
      with sim tp obtain e' ps' ts' where
        S: "parse_step cfg tx textlen num_tok ps (Some mem) n = Return e' ps' ts'"
        and e': "e' = e \<or> e' = NOT_ENOUGH_MEM"
        by (auto simp: step_sim_def split: loop_step.splits)
      from parse_loop_Return [OF cs S] parse_loop_Return [OF c Return] e' show ?thesis
        by auto
    next
      case (Continue pc' tc' n')
      show ?thesis
      proof (cases "parse_step cfg tx textlen num_tok ps (Some mem) n")
        case S: (Return e' ps' ts')
        with sim tp Continue have "e' = NOT_ENOUGH_MEM"
          by (simp add: step_sim_def)
        with parse_loop_Return [OF cs S] show ?thesis
          by simp
      next
        case S: (Continue ps' ts' n'')
        with sim tp Continue obtain mem' where
          r: "n'' = n'" "ts' = Some mem'" "same_cursor ps' pc'" "tc' = None"
          by (auto simp: step_sim_def)
        from "1.IH" [OF c Continue r(4) r(3), of mem']
          parse_loop_Continue [OF cs S] parse_loop_Continue [OF c Continue] r
        show ?thesis
          by simp
      qed
    qed
  qed
qed

lemma parse_loop_enough:
  "tp = None \<Longrightarrow> same_cursor ps pc \<Longrightarrow>
     fst (parse_loop cfg tx textlen k pc tp n) = Inr m \<Longrightarrow>
     0 \<le> toknext ps \<Longrightarrow> toknext ps + (m - n) \<le> int num_tok \<Longrightarrow>
     fst (parse_loop cfg tx textlen num_tok ps (Some mem) n) = Inr m"
proof (induction cfg tx textlen k pc tp n arbitrary: ps mem rule: parse_loop.induct)
  case (1 cfg tx textlen k pc tp n)
  from "1.prems" have pq: "pos ps = pos pc" and tp: "tp = None"
    by (simp_all add: same_cursor_def)
  show ?case
  proof (cases "text_at tx (pos pc) \<noteq> NUL \<and> lt_size (pos pc) textlen")
    case False
    then have "\<not> (text_at tx (pos ps) \<noteq> NUL \<and> lt_size (pos ps) textlen)"
      using pq by simp
    from parse_loop_stop [OF this, of cfg num_tok "Some mem" n]
      parse_loop_stop [OF False, of cfg k tp n] "1.prems"(3)
    show ?thesis by simp
  next
    case c: True
    then have cs: "text_at tx (pos ps) \<noteq> NUL \<and> lt_size (pos ps) textlen"
      using pq by simp
    note sim = parse_step_sim [OF "1.prems"(2), of num_tok n cfg tx textlen k mem]
    show ?thesis
    proof (cases "parse_step cfg tx textlen k pc tp n")
      case (Return e pc' tc')
      from parse_loop_Return [OF c Return] "1.prems"(3) show ?thesis
        by simp
    next
      case (Continue pc' tc' n')
      from parse_loop_Continue [OF c Continue] "1.prems"(3)
      have rest: "fst (parse_loop cfg tx textlen k pc' tc' n') = Inr m"
        by simp
      from sim tp Continue have tc': "tc' = None" and nn: "n \<le> n'"
        by (simp_all add: step_sim_def)
      from parse_loop_count_mono [OF tc' rest] have n'm: "n' \<le> m" .
      show ?thesis
      proof (cases "parse_step cfg tx textlen num_tok ps (Some mem) n")
        case S: (Return e' ps' ts')
        with sim tp Continue have "gt_size (toknext ps) num_tok" "n' = n + 1"
          by (simp_all add: step_sim_def)
        with n'm "1.prems"(4,5) have False
          by (simp add: gt_size_def)
        then show ?thesis ..
      next
        case S: (Continue ps' ts' n'')
        with sim tp Continue obtain mem' where
          r: "n'' = n'" "ts' = Some mem'" "same_cursor ps' pc'"
            "toknext ps' = toknext ps + (n' - n)"
          by (auto simp: step_sim_def)
        from r(4) nn "1.prems"(4,5)
        have "0 \<le> toknext ps'" "toknext ps' + (m - n') \<le> int num_tok"
          by simp_all
        from "1.IH" [OF c Continue tc' r(3) rest this, of mem']
          parse_loop_Continue [OF cs S] r
        show ?thesis
          by simp
      qed
    qed
  qed
qed

lemma parse_loop_None_result:
  "tp = None \<Longrightarrow>
     (\<exists>m. fst (parse_loop cfg tx textlen k p tp n) = Inr m) \<or>
     fst (parse_loop cfg tx textlen k p tp n) = Inl INVALID_CHARACTER \<and>
       (strict cfg \<or> no_empty_field cfg)"
proof (induction cfg tx textlen k p tp n rule: parse_loop.induct)
  case (1 cfg tx textlen k p tp n)
  show ?case
  proof (cases "text_at tx (pos p) \<noteq> NUL \<and> lt_size (pos p) textlen")
    case False
    from parse_loop_stop [OF False, of cfg k tp n] show ?thesis
      by simp
  next
    case c: True
    show ?thesis
    proof (cases "parse_step cfg tx textlen k p tp n")
      case (Return e p' tp')
      with parse_step_None_Return [of cfg tx textlen k p n e p' tp'] "1.prems"
      have "e = INVALID_CHARACTER \<and> (strict cfg \<or> no_empty_field cfg)"
        by simp
      with parse_loop_Return [OF c Return] show ?thesis
        by simp
    next
      case (Continue p' tp' n')
      from parse_step_sim [OF same_cursor_refl, of k p n cfg tx textlen k Map.empty] Continue
        "1.prems"
      have "tp' = None"
        by (simp add: step_sim_def)
      from "1.IH" [OF c Continue this] parse_loop_Continue [OF c Continue] show ?thesis
        by simp
    qed
  qed
qed

lemma loop_next_pos: "loop_next cfg tx textlen k s s' \<Longrightarrow> pos (fst s) < pos (fst s')"
  unfolding loop_next_def by (blast intro: parse_step_Continue_pos)

lemma loop_next_result:
  "loop_next cfg tx textlen k s s' \<Longrightarrow>
     parse_loop cfg tx textlen k (fst s) (fst (snd s)) (snd (snd s)) =
     parse_loop cfg tx textlen k (fst s') (fst (snd s')) (snd (snd s'))"
  unfolding loop_next_def by (blast intro: parse_loop_Continue)

lemma loop_reach_pos:
  "(loop_next cfg tx textlen k)\<^sup>*\<^sup>* s s' \<Longrightarrow>
     pos (fst s) \<le> pos (fst s') \<and>
     parse_loop cfg tx textlen k (fst s) (fst (snd s)) (snd (snd s)) =
     parse_loop cfg tx textlen k (fst s') (fst (snd s')) (snd (snd s'))"
proof (induction rule: rtranclp_induct)
  case base
  show ?case by simp
next
  case (step y z)
  from loop_next_pos [OF step.hyps(2)] loop_next_result [OF step.hyps(2)] step.IH
  show ?case by simp
qed

lemma parse_fuel_enough:
  "nat (int textlen - pos p) \<le> fuel \<Longrightarrow>
     parse_fuel fuel cfg tx textlen k p tp n = Some (parse_loop cfg tx textlen k p tp n)"
proof (induction fuel arbitrary: p tp n)
  case 0
  then have "\<not> (text_at tx (pos p) \<noteq> NUL \<and> lt_size (pos p) textlen)"
    by (simp add: lt_size_def)
  with parse_loop_stop [OF this, of cfg k tp n] show ?case
    by simp
next
  case (Suc fuel)
  show ?case
  proof (cases "text_at tx (pos p) \<noteq> NUL \<and> lt_size (pos p) textlen")
    case False
    with parse_loop_stop [OF False, of cfg k tp n] show ?thesis
      by auto
  next
    case c: True
    show ?thesis
    proof (cases "parse_step cfg tx textlen k p tp n")
      case (Return e p' tp')
      with c parse_loop_Return [OF c Return] show ?thesis
        by simp
    next
      case (Continue p' tp' n')
      from c Continue have "pos p < pos p'"
        by (blast intro: parse_step_Continue_pos)
      with Suc.prems have "nat (int textlen - pos p') \<le> fuel"
        by simp
      from Suc.IH [OF this, of tp' n'] c Continue parse_loop_Continue [OF c Continue]
      show ?thesis
        by simp
    qed
  qed
qed

lemma csvn_init_any: "csvn_init (p :: csv_p) = csvn_init q"
  by (cases p, cases q) (simp add: csvn_init_def)

section \<open>Capacity of the token pool\<close>

text \<open>
  C1. The claim: the allocator reports exhaustion exactly when toknext has reached the
  capacity, so three fields parsed into a pool of capacity 2 give NOT_ENOUGH_MEM and no
  slot of index 2 or more is written. The code tests \<^verbatim>\<open>csv_p->toknext > num_tok\<close>:
  the allocator refuses a slot exactly when toknext exceeds the capacity, and with toknext
  equal to the capacity it still hands one out. Parsing \<^verbatim>\<open>a,b,c\<close> with capacity 2
  returns the count 3 and writes slot 2.
\<close>

theorem C1_allocator_off_by_one:
  "(csvn_allocate_token p (Some mem) num_tok = None) =
     (toknext p < 0 \<or> int num_tok < toknext p) \<and>
   csvn_allocate_token (p\<lparr>toknext := int num_tok\<rparr>) (Some mem) num_tok \<noteq> None \<and>
   fst (csvn_parse cfg ''a,b,c'' 5 (csvn_init st) (Some mem) 2) = Inr 3 \<and>
   slot (csvn_parse cfg ''a,b,c'' 5 (csvn_init st) (Some mem) 2) 2 =
     Some \<lparr>t_start = 4, t_end = 5, t_line = 1, t_size = 1, t_token = DQUOTE\<rparr>"
  by (simp add: csvn_eval)

section \<open>Kinds of the stored descriptors\<close>

text \<open>
  C2. The claim: a field scanned by the unquoted-field scanner is stored with kind TEXT,
  a quoted one with kind DQUOTE. csvn_parse_normal fills its descriptor with DQUOTE, as
  csvn_parse_quotes does: the unquoted field \<^verbatim>\<open>a\<close> and the quoted field \<^verbatim>\<open>"a"\<close> are
  both stored as DQUOTE.
\<close>

theorem C2_unquoted_field_stored_as_DQUOTE:
  "map_option t_token (slot (csvn_parse cfg ''a'' 1 (csvn_init st) (Some mem) 1) 0)
     = Some DQUOTE \<and>
   map_option t_token
     (slot (csvn_parse cfg [DQ, CHR ''a'', DQ] 3 (csvn_init st) (Some mem) 1) 0)
     = Some DQUOTE"
  by (simp add: csvn_eval)

section \<open>Empty fields\<close>

text \<open>
  C3, as stated: under the default policy \<^verbatim>\<open>a,,b\<close> gives the count 3 and a middle
  descriptor of kind EMPTY and size 0. The count and the kind are as stated; the size is
  not 0.
\<close>

theorem C3_empty_descriptor_size_counterexample:
  "fst (csvn_parse default_config ''a,,b'' 4 fresh (Some Map.empty) 3) = Inr 3 \<and>
   map_option t_token (slot (csvn_parse default_config ''a,,b'' 4 fresh (Some Map.empty) 3) 1)
     = Some EMPTY \<and>
   map_option t_size (slot (csvn_parse default_config ''a,,b'' 4 fresh (Some Map.empty) 3) 1)
     \<noteq> Some 0"
  by (simp add: csvn_eval fresh_def default_config_def)

text \<open>
  C3, amended: with a capacity of at least 3, the text \<^verbatim>\<open>a,,b\<close> gives the count 3 under
  the default policy, and the middle descriptor has kind EMPTY, starts at the first of
  the two delimiters and ends at the second (start 1, end 2, size 1); under
  CSVN_NO_EMPTY_FIELD the parse returns INVALID_CHARACTER; under CSVN_IGNORE_EMPTY_FIELD it
  gives the count 2. This holds whatever the other flags are.
\<close>

theorem C3_empty_field_policies:
  assumes "3 \<le> num_tok"
  shows
    "fst (csvn_parse (cfg\<lparr>no_empty_field := False, ignore_empty_field := False\<rparr>) ''a,,b'' 4
            (csvn_init st) (Some mem) num_tok) = Inr 3 \<and>
     slot (csvn_parse (cfg\<lparr>no_empty_field := False, ignore_empty_field := False\<rparr>) ''a,,b'' 4
            (csvn_init st) (Some mem) num_tok) 1 =
       Some \<lparr>t_start = 1, t_end = 2, t_line = 1, t_size = 1, t_token = EMPTY\<rparr> \<and>
     fst (csvn_parse (cfg\<lparr>no_empty_field := True\<rparr>) ''a,,b'' 4
            (csvn_init st) (Some mem) num_tok) = Inl INVALID_CHARACTER \<and>
     fst (csvn_parse (cfg\<lparr>no_empty_field := False, ignore_empty_field := True\<rparr>) ''a,,b'' 4
            (csvn_init st) (Some mem) num_tok) = Inr 2"
  using assms by (simp add: csvn_eval)

theorem C3_empty_field_policies_witness:
  "(3::nat) \<le> 3 \<and>
   fst (csvn_parse (default_config\<lparr>no_empty_field := False, ignore_empty_field := False\<rparr>)
          ''a,,b'' 4 (csvn_init fresh) (Some Map.empty) 3) = Inr 3 \<and>
   slot (csvn_parse (default_config\<lparr>no_empty_field := False, ignore_empty_field := False\<rparr>)
          ''a,,b'' 4 (csvn_init fresh) (Some Map.empty) 3) 1 =
     Some \<lparr>t_start = 1, t_end = 2, t_line = 1, t_size = 1, t_token = EMPTY\<rparr> \<and>
   fst (csvn_parse (default_config\<lparr>no_empty_field := True\<rparr>) ''a,,b'' 4
          (csvn_init fresh) (Some Map.empty) 3) = Inl INVALID_CHARACTER \<and>
   fst (csvn_parse (default_config\<lparr>no_empty_field := False, ignore_empty_field := True\<rparr>)
          ''a,,b'' 4 (csvn_init fresh) (Some Map.empty) 3) = Inr 2"
  using C3_empty_field_policies [where num_tok = 3 and cfg = default_config and st = fresh
      and mem = Map.empty]
  by simp

section \<open>Doubled quotes\<close>

text \<open>
  C4, as stated: for the text \<^verbatim>\<open>"a""b"\<close> the bytes from start to end of the stored
  descriptor are \<^verbatim>\<open>a"b\<close>. The parser stores offsets only; the bytes between them are
  those of the text, with both quote bytes.
\<close>

theorem C4_field_text_counterexample:
  "map_option (field_text [DQ, CHR ''a'', DQ, DQ, CHR ''b'', DQ])
     (slot (csvn_parse default_config [DQ, CHR ''a'', DQ, DQ, CHR ''b'', DQ] 6 fresh
              (Some Map.empty) 1) 0)
     \<noteq> Some [CHR ''a'', DQ, CHR ''b'']"
  by (simp add: csvn_eval fresh_def default_config_def field_text_def upto_rec1)

text \<open>
  C4, amended: for the text \<^verbatim>\<open>"a""b"\<close> and a capacity of at least 1 the parse returns
  the count 1, the descriptor has kind DQUOTE, start 1 and end 4, and the bytes of the
  text from start to end are \<^verbatim>\<open>a""b\<close>: the doubled quote is one escaped quote of the
  field, kept in the text as two bytes.
\<close>

theorem C4_doubled_quote_field:
  assumes "1 \<le> num_tok"
  shows
    "fst (csvn_parse cfg [DQ, CHR ''a'', DQ, DQ, CHR ''b'', DQ] 6 (csvn_init st) (Some mem)
            num_tok) = Inr 1 \<and>
     slot (csvn_parse cfg [DQ, CHR ''a'', DQ, DQ, CHR ''b'', DQ] 6 (csvn_init st) (Some mem)
            num_tok) 0 =
       Some \<lparr>t_start = 1, t_end = 4, t_line = 1, t_size = 3, t_token = DQUOTE\<rparr> \<and>
     field_text [DQ, CHR ''a'', DQ, DQ, CHR ''b'', DQ]
       \<lparr>t_start = 1, t_end = 4, t_line = 1, t_size = 3, t_token = DQUOTE\<rparr> =
       [CHR ''a'', DQ, DQ, CHR ''b'']"
  using assms by (simp add: csvn_eval field_text_def upto_rec1)

theorem C4_doubled_quote_field_witness:
  "(1::nat) \<le> 1 \<and>
   fst (csvn_parse default_config [DQ, CHR ''a'', DQ, DQ, CHR ''b'', DQ] 6 (csvn_init fresh)
          (Some Map.empty) 1) = Inr 1 \<and>
   slot (csvn_parse default_config [DQ, CHR ''a'', DQ, DQ, CHR ''b'', DQ] 6 (csvn_init fresh)
          (Some Map.empty) 1) 0 =
     Some \<lparr>t_start = 1, t_end = 4, t_line = 1, t_size = 3, t_token = DQUOTE\<rparr> \<and>
   field_text [DQ, CHR ''a'', DQ, DQ, CHR ''b'', DQ]
     \<lparr>t_start = 1, t_end = 4, t_line = 1, t_size = 3, t_token = DQUOTE\<rparr> =
     [CHR ''a'', DQ, DQ, CHR ''b'']"
  using C4_doubled_quote_field [where num_tok = 1 and cfg = default_config and st = fresh
      and mem = Map.empty]
  by simp

section \<open>Counting and storing\<close>

text \<open>
  C5. A parse without a pool (NULL, capacity 0) from a parser state after csvn_init,
  then csvn_init again and a parse of the same text with a pool: the second parse returns
  what the first returned, unless it runs out of slots; when the first returns the count
  n and the capacity is at least n, the second returns n as well, and n is not negative.
  The first parse returns a count for every text, except that under CSVN_STRICT or
  CSVN_NO_EMPTY_FIELD it can return INVALID_CHARACTER.
\<close>

theorem C5_counting_and_storing_agree:
  "(fst (csvn_parse cfg buf textlen
           (csvn_init (fst (snd (csvn_parse cfg buf textlen (csvn_init st) None 0))))
           (Some mem) num_tok)
      = fst (csvn_parse cfg buf textlen (csvn_init st) None 0) \<or>
    fst (csvn_parse cfg buf textlen
           (csvn_init (fst (snd (csvn_parse cfg buf textlen (csvn_init st) None 0))))
           (Some mem) num_tok)
      = Inl NOT_ENOUGH_MEM) \<and>
   (fst (csvn_parse cfg buf textlen (csvn_init st) None 0) = Inr n \<and> n \<le> int num_tok \<longrightarrow>
      fst (csvn_parse cfg buf textlen
             (csvn_init (fst (snd (csvn_parse cfg buf textlen (csvn_init st) None 0))))
             (Some mem) num_tok) = Inr n \<and>
      0 \<le> n) \<and>
   ((\<exists>m. fst (csvn_parse cfg buf textlen (csvn_init st) None 0) = Inr m) \<or>
    fst (csvn_parse cfg buf textlen (csvn_init st) None 0) = Inl INVALID_CHARACTER \<and>
      (strict cfg \<or> no_empty_field cfg))"
proof -
  let ?c = "csvn_parse cfg buf textlen (csvn_init st) None 0"
  have i: "csvn_init (fst (snd ?c)) = csvn_init st"
    by (rule csvn_init_any)
  have t: "toknext (csvn_init st) = 0"
    by (simp add: csvn_init_def)
  have a: "fst (csvn_parse cfg buf textlen (csvn_init st) (Some mem) num_tok) = fst ?c \<or>
      fst (csvn_parse cfg buf textlen (csvn_init st) (Some mem) num_tok) = Inl NOT_ENOUGH_MEM"
    unfolding csvn_parse_def by (rule parse_loop_sim [OF refl same_cursor_refl])
  have b: "fst (csvn_parse cfg buf textlen (csvn_init st) (Some mem) num_tok) = Inr n \<and> 0 \<le> n"
    if "fst ?c = Inr n" "n \<le> int num_tok"
  proof
    from that t
    show "fst (csvn_parse cfg buf textlen (csvn_init st) (Some mem) num_tok) = Inr n"
      unfolding csvn_parse_def
      by (intro parse_loop_enough [OF refl same_cursor_refl]) simp_all
    from that(1) show "0 \<le> n"
      unfolding csvn_parse_def by (rule parse_loop_count_mono [OF refl])
  qed
  have c: "(\<exists>m. fst ?c = Inr m) \<or>
      fst ?c = Inl INVALID_CHARACTER \<and> (strict cfg \<or> no_empty_field cfg)"
    unfolding csvn_parse_def by (rule parse_loop_None_result [OF refl])
  from a b c show ?thesis
    unfolding i by blast
qed

theorem C5_counting_and_storing_agree_witness:
  "fst (csvn_parse default_config ''a,b'' 3 (csvn_init fresh) None 0) = Inr 2 \<and>
   (2 :: int) \<le> int 2 \<and>
   fst (csvn_parse default_config ''a,b'' 3
          (csvn_init (fst (snd (csvn_parse default_config ''a,b'' 3 (csvn_init fresh) None 0))))
          (Some Map.empty) 2) = Inr 2"
proof -
  have h: "fst (csvn_parse default_config ''a,b'' 3 (csvn_init fresh) None 0) = Inr 2"
    by (simp add: csvn_eval default_config_def)
  with C5_counting_and_storing_agree [where cfg = default_config and buf = "''a,b''"
      and textlen = 3 and st = fresh and mem = Map.empty and num_tok = 2 and n = 2]
  show ?thesis by simp
qed

section \<open>Strict mode after a quoted field\<close>

text \<open>
  C6. Under CSVN_STRICT, let the loop of a csvn_parse call that started in the parser
  state p0 with the pool tp0 reach, after any number of iterations, a quote byte, and let
  the descriptor of the quoted field be storable (no pool, or a slot left). When the byte
  after the closing quote is neither the delimiter nor the newline and the text has not
  ended there (no NUL, offset below textlen), the call returns INVALID_CHARACTER. When it
  is the delimiter, the newline or the end of the text, the iteration raises no error:
  it counts the field and goes on at that byte. The text \<^verbatim>\<open>"a"b\<close> is an instance
  of the first part and \<^verbatim>\<open>"a",\<close> one of the second.
\<close>

theorem C6_strict_after_closing_quote:
  assumes "strict cfg"
    and "(loop_next cfg buf textlen num_tok)\<^sup>*\<^sup>* (p0, tp0, 0) (p, tokpool, parsed)"
    and "text_at buf (pos p) = DQ" and "lt_size (pos p) textlen"
    and "tokpool = None \<or> \<not> gt_size (toknext p) num_tok"
  shows
    "(text_at buf (after_closing_quote buf textlen p) \<noteq> CSVN_DELIM \<and>
      text_at buf (after_closing_quote buf textlen p) \<noteq> CSVN_NEWLINE \<and>
      text_at buf (after_closing_quote buf textlen p) \<noteq> NUL \<and>
      lt_size (after_closing_quote buf textlen p) textlen \<longrightarrow>
        fst (csvn_parse cfg buf textlen p0 tp0 num_tok) = Inl INVALID_CHARACTER) \<and>
     (text_at buf (after_closing_quote buf textlen p) = CSVN_DELIM \<or>
      text_at buf (after_closing_quote buf textlen p) = CSVN_NEWLINE \<or>
      text_at buf (after_closing_quote buf textlen p) = NUL \<or>
      \<not> lt_size (after_closing_quote buf textlen p) textlen \<longrightarrow>
        (\<exists>p' tp'. parse_step cfg buf textlen num_tok p tokpool parsed =
                    Continue p' tp' (parsed + 1) \<and>
                  pos p' = after_closing_quote buf textlen p))"
proof -
  have ch: "text_at buf (pos p) \<noteq> CSVN_NEWLINE" "text_at buf (pos p) \<noteq> CSVN_DELIM"
    "text_at buf (pos p) \<noteq> NUL"
    using assms(3) by (simp_all add: DQ_def CSVN_NEWLINE_def CSVN_DELIM_def NUL_def)
  have c: "text_at buf (pos p) \<noteq> NUL \<and> lt_size (pos p) textlen"
    using ch assms(4) by simp
  have call: "csvn_parse cfg buf textlen p0 tp0 num_tok =
      parse_loop cfg buf textlen num_tok p tokpool parsed"
    using loop_reach_pos [OF assms(2)] by (simp add: csvn_parse_def)
  show ?thesis
  proof (cases tokpool)
    case None
    show ?thesis
      using parse_step_quote_None [OF ch(1,2) assms(3), of cfg textlen num_tok parsed]
        parse_loop_Return [OF c, of cfg num_tok tokpool parsed] assms(1) None
      by (auto simp: call strict_reject_def after_closing_quote_def)
  next
    case (Some mem)
    with assms(5) have g: "\<not> gt_size (toknext p) num_tok" by simp
    from parse_step_quote_Some [OF ch(1,2) assms(3), of cfg textlen num_tok mem parsed]
    obtain mem' where
      "parse_step cfg buf textlen num_tok p (Some mem) parsed =
        (if gt_size (toknext p) num_tok
         then Return NOT_ENOUGH_MEM (quotes_loop buf textlen (p\<lparr>pos := pos p + 1\<rparr>)) (Some mem)
         else if strict_reject cfg buf textlen
                (pos (quotes_loop buf textlen (p\<lparr>pos := pos p + 1\<rparr>)) + 1)
         then Return INVALID_CHARACTER
             ((quotes_loop buf textlen (p\<lparr>pos := pos p + 1\<rparr>))
                \<lparr>pos := pos (quotes_loop buf textlen (p\<lparr>pos := pos p + 1\<rparr>)) + 1,
                 toknext := toknext p + 1\<rparr>) (Some mem')
         else Continue
             ((quotes_loop buf textlen (p\<lparr>pos := pos p + 1\<rparr>))
                \<lparr>pos := pos (quotes_loop buf textlen (p\<lparr>pos := pos p + 1\<rparr>)) + 1,
                 toknext := toknext p + 1\<rparr>) (Some mem')
             (parsed + 1))"
      by auto
    then show ?thesis
      using parse_loop_Return [OF c, of cfg num_tok tokpool parsed] assms(1) Some g
      by (auto simp: call strict_reject_def after_closing_quote_def)
  qed
qed

theorem C6_strict_after_closing_quote_witness:
  "strict (default_config\<lparr>strict := True\<rparr>) \<and>
   text_at [DQ, CHR ''a'', DQ, CHR ''b''] (pos fresh) = DQ \<and> lt_size (pos fresh) 4 \<and>
   after_closing_quote [DQ, CHR ''a'', DQ, CHR ''b''] 4 fresh = 3 \<and>
   text_at [DQ, CHR ''a'', DQ, CHR ''b''] 3 = CHR ''b'' \<and>
   fst (csvn_parse (default_config\<lparr>strict := True\<rparr>) [DQ, CHR ''a'', DQ, CHR ''b''] 4 fresh
          (Some Map.empty) 1) = Inl INVALID_CHARACTER \<and>
   text_at [DQ, CHR ''a'', DQ, CHR '',''] (pos fresh) = DQ \<and>
   text_at [DQ, CHR ''a'', DQ, CHR '',''] 3 = CSVN_DELIM \<and>
   (\<exists>p' tp'. parse_step (default_config\<lparr>strict := True\<rparr>) [DQ, CHR ''a'', DQ, CHR '',''] 4 1
           fresh (Some Map.empty) 0 = Continue p' tp' 1 \<and> pos p' = 3)"
proof -
  have q: "after_closing_quote [DQ, CHR ''a'', DQ, CHR ''b''] 4 fresh = 3"
    "after_closing_quote [DQ, CHR ''a'', DQ, CHR '',''] 4 fresh = 3"
    by (simp_all add: after_closing_quote_def fresh_def csvn_eval)
  have h: "strict (default_config\<lparr>strict := True\<rparr>)"
    "text_at [DQ, CHR ''a'', DQ, CHR ''b''] (pos fresh) = DQ"
    "text_at [DQ, CHR ''a'', DQ, CHR '',''] (pos fresh) = DQ"
    "lt_size (pos fresh) 4"
    "Some Map.empty = None \<or> \<not> gt_size (toknext fresh) 1"
    "text_at [DQ, CHR ''a'', DQ, CHR ''b''] 3 = CHR ''b''"
    "text_at [DQ, CHR ''a'', DQ, CHR '',''] 3 = CSVN_DELIM"
    by (simp_all add: fresh_def csvn_init_def text_at_def lt_size_def gt_size_def DQ_def
          CSVN_DELIM_def)
  have r: "(loop_next (default_config\<lparr>strict := True\<rparr>) [DQ, CHR ''a'', DQ, CHR ''b''] 4 1)\<^sup>*\<^sup>*
        (fresh, Some Map.empty, 0) (fresh, Some Map.empty, 0)"
    "(loop_next (default_config\<lparr>strict := True\<rparr>) [DQ, CHR ''a'', DQ, CHR '',''] 4 1)\<^sup>*\<^sup>*
        (fresh, Some Map.empty, 0) (fresh, Some Map.empty, 0)"
    by simp_all
  from C6_strict_after_closing_quote [OF h(1) r(1) h(2) h(4) h(5)]
    C6_strict_after_closing_quote [OF h(1) r(2) h(3) h(4) h(5)] q h
  show ?thesis
    by (simp add: lt_size_def CSVN_DELIM_def CSVN_NEWLINE_def NUL_def)
qed

section \<open>Line numbers\<close>

text \<open>
  C7. With a capacity of at least 4 the text \<^verbatim>\<open>a,b\<close>, newline, \<^verbatim>\<open>c,d\<close> gives four
  descriptors with the lines 1, 1, 2, 2. In general: an iteration of the loop that finds
  the newline byte under the cursor adds one to the line of the parser state and moves
  one byte on, without a descriptor; and a descriptor that csvn_parse_normal or
  csvn_parse_quotes stores carries the line that the parser state had when the scan
  began (for a quoted field also when the scan passes newline bytes).
\<close>

theorem C7_line_tracking:
  "(4 \<le> num_tok \<longrightarrow>
      fst (csvn_parse cfg (''a,b'' @ [CSVN_NEWLINE] @ ''c,d'') 7 (csvn_init st) (Some mem) num_tok)
        = Inr 4 \<and>
      map (\<lambda>i. map_option t_line
                 (slot (csvn_parse cfg (''a,b'' @ [CSVN_NEWLINE] @ ''c,d'') 7 (csvn_init st)
                          (Some mem) num_tok) i))
          [0, 1, 2, 3] = [Some 1, Some 1, Some 2, Some 2]) \<and>
   (text_at buf (pos p) = CSVN_NEWLINE \<longrightarrow>
      parse_step cfg buf textlen num_tok p tokpool parsed =
        Continue (p\<lparr>line := line p + 1, pos := pos p + 1\<rparr>) tokpool parsed) \<and>
   (fst (csvn_parse_normal cfg buf textlen p (Some mem) num_tok) = None \<longrightarrow>
      map_option t_line
        (slot_of (snd (snd (csvn_parse_normal cfg buf textlen p (Some mem) num_tok)))
           (nat (toknext p))) = Some (line p)) \<and>
   (fst (csvn_parse_quotes buf textlen p (Some mem) num_tok) = None \<longrightarrow>
      map_option t_line
        (slot_of (snd (snd (csvn_parse_quotes buf textlen p (Some mem) num_tok)))
           (nat (toknext p))) = Some (line p))"
proof (intro conjI impI)
  assume "4 \<le> num_tok"
  then show "fst (csvn_parse cfg (''a,b'' @ [CSVN_NEWLINE] @ ''c,d'') 7 (csvn_init st) (Some mem)
                    num_tok) = Inr 4"
    by (simp add: csvn_eval)
next
  assume "4 \<le> num_tok"
  then show "map (\<lambda>i. map_option t_line
                 (slot (csvn_parse cfg (''a,b'' @ [CSVN_NEWLINE] @ ''c,d'') 7 (csvn_init st)
                          (Some mem) num_tok) i))
          [0, 1, 2, 3] = [Some 1, Some 1, Some 2, Some 2]"
    by (simp add: csvn_eval)
next
  assume "text_at buf (pos p) = CSVN_NEWLINE"
  then show "parse_step cfg buf textlen num_tok p tokpool parsed =
        Continue (p\<lparr>line := line p + 1, pos := pos p + 1\<rparr>) tokpool parsed"
    by (simp add: parse_step_def)
next
  assume "fst (csvn_parse_normal cfg buf textlen p (Some mem) num_tok) = None"
  then show "map_option t_line
        (slot_of (snd (snd (csvn_parse_normal cfg buf textlen p (Some mem) num_tok)))
           (nat (toknext p))) = Some (line p)"
    by (auto simp: csvn_parse_normal_Some csvn_fill_token_def slot_of_def
          split: option.splits if_splits)
next
  assume "fst (csvn_parse_quotes buf textlen p (Some mem) num_tok) = None"
  then show "map_option t_line
        (slot_of (snd (snd (csvn_parse_quotes buf textlen p (Some mem) num_tok)))
           (nat (toknext p))) = Some (line p)"
    by (auto simp: csvn_parse_quotes_Some csvn_fill_token_def slot_of_def
          split: option.splits if_splits)
qed

theorem C7_line_tracking_witness:
  "(4 :: nat) \<le> 4 \<and>
   fst (csvn_parse default_config (''a,b'' @ [CSVN_NEWLINE] @ ''c,d'') 7 (csvn_init fresh)
          (Some Map.empty) 4) = Inr 4 \<and>
   map (\<lambda>i. map_option t_line
              (slot (csvn_parse default_config (''a,b'' @ [CSVN_NEWLINE] @ ''c,d'') 7
                       (csvn_init fresh) (Some Map.empty) 4) i))
       [0, 1, 2, 3] = [Some 1, Some 1, Some 2, Some 2] \<and>
   text_at [CSVN_NEWLINE] (pos fresh) = CSVN_NEWLINE \<and>
   parse_step default_config [CSVN_NEWLINE] 1 4 fresh (Some Map.empty) 0 =
     Continue (fresh\<lparr>line := line fresh + 1, pos := pos fresh + 1\<rparr>) (Some Map.empty) 0 \<and>
   fst (csvn_parse_normal default_config ''a,b'' 3 (fresh\<lparr>pos := 2, line := 5\<rparr>)
          (Some Map.empty) 4) = None \<and>
   map_option t_line
     (slot_of (snd (snd (csvn_parse_normal default_config ''a,b'' 3
                           (fresh\<lparr>pos := 2, line := 5\<rparr>) (Some Map.empty) 4)))
        (nat (toknext (fresh\<lparr>pos := 2, line := 5\<rparr>)))) = Some 5 \<and>
   fst (csvn_parse_quotes [CSVN_NEWLINE, DQ] 2 (fresh\<lparr>line := 5\<rparr>) (Some Map.empty) 4) = None \<and>
   line (fst (snd (csvn_parse_quotes [CSVN_NEWLINE, DQ] 2 (fresh\<lparr>line := 5\<rparr>)
                     (Some Map.empty) 4))) = 6 \<and>
   map_option t_line
     (slot_of (snd (snd (csvn_parse_quotes [CSVN_NEWLINE, DQ] 2 (fresh\<lparr>line := 5\<rparr>)
                           (Some Map.empty) 4)))
        (nat (toknext (fresh\<lparr>line := 5\<rparr>)))) = Some 5"
proof -
  have h: "text_at [CSVN_NEWLINE] (pos fresh) = CSVN_NEWLINE"
    "fst (csvn_parse_normal default_config ''a,b'' 3 (fresh\<lparr>pos := 2, line := 5\<rparr>)
          (Some Map.empty) 4) = None"
    "line (fresh\<lparr>pos := 2, line := 5\<rparr>) = 5"
    "fst (csvn_parse_quotes [CSVN_NEWLINE, DQ] 2 (fresh\<lparr>line := 5\<rparr>) (Some Map.empty) 4) = None"
    "line (fst (snd (csvn_parse_quotes [CSVN_NEWLINE, DQ] 2 (fresh\<lparr>line := 5\<rparr>)
                     (Some Map.empty) 4))) = 6"
    "line (fresh\<lparr>line := 5\<rparr>) = 5"
    by (simp_all add: fresh_def csvn_eval default_config_def)
  from C7_line_tracking [where num_tok = 4 and cfg = default_config and st = fresh
      and mem = Map.empty and buf = "[CSVN_NEWLINE]" and p = fresh and textlen = 1
      and tokpool = "Some Map.empty" and parsed = 0]
    C7_line_tracking [where num_tok = 4 and cfg = default_config and st = fresh
      and mem = Map.empty and buf = "''a,b''" and p = "fresh\<lparr>pos := 2, line := 5\<rparr>"
      and textlen = 3 and tokpool = None and parsed = 0]
    C7_line_tracking [where num_tok = 4 and cfg = default_config and st = fresh
      and mem = Map.empty and buf = "[CSVN_NEWLINE, DQ]" and p = "fresh\<lparr>line := 5\<rparr>"
      and textlen = 2 and tokpool = None and parsed = 0] h
  show ?thesis by simp
qed

section \<open>The cursor never moves backwards\<close>

text \<open>
  C8. Between any two tests of the loop condition of one csvn_parse call, the later one
  following the earlier by any number of iterations, pos has not decreased, and pos at
  the return of the call is not below pos at any test reached before. In particular the
  call does not return with pos below its value at entry. Inside an iteration,
  csvn_parse_quotes never returns with pos below its value at entry, and neither does
  csvn_parse_normal where the loop calls it (a byte under the cursor that is no
  terminator, newline, delimiter or quote), although it steps one byte back before a
  delimiter or newline.
\<close>

theorem C8_pos_never_decreases:
  "((loop_next cfg buf textlen num_tok)\<^sup>*\<^sup>* (p, tp, n) (p', tp', n') \<longrightarrow>
      pos p \<le> pos p' \<and>
      pos p' \<le> pos (fst (snd (parse_loop cfg buf textlen num_tok p tp n)))) \<and>
   pos p \<le> pos (fst (snd (csvn_parse cfg buf textlen p tp num_tok))) \<and>
   pos p \<le> pos (fst (snd (csvn_parse_quotes buf textlen p tp num_tok))) \<and>
   (text_at buf (pos p) \<noteq> NUL \<and> lt_size (pos p) textlen \<and>
    text_at buf (pos p) \<noteq> CSVN_NEWLINE \<and> text_at buf (pos p) \<noteq> CSVN_DELIM \<and>
    text_at buf (pos p) \<noteq> DQ \<longrightarrow>
      pos p \<le> pos (fst (snd (csvn_parse_normal cfg buf textlen p tp num_tok))))"
proof (intro conjI impI)
  assume r: "(loop_next cfg buf textlen num_tok)\<^sup>*\<^sup>* (p, tp, n) (p', tp', n')"
  from loop_reach_pos [OF r] show "pos p \<le> pos p'" by simp
  from loop_reach_pos [OF r] parse_loop_pos [of p' cfg buf textlen num_tok tp' n']
  show "pos p' \<le> pos (fst (snd (parse_loop cfg buf textlen num_tok p tp n)))" by simp
next
  show "pos p \<le> pos (fst (snd (csvn_parse cfg buf textlen p tp num_tok)))"
    unfolding csvn_parse_def by (rule parse_loop_pos)
next
  show "pos p \<le> pos (fst (snd (csvn_parse_quotes buf textlen p tp num_tok)))"
    by (cases "csvn_parse_quotes buf textlen p tp num_tok")
       (auto dest: csvn_parse_quotes_pos)
next
  assume "text_at buf (pos p) \<noteq> NUL \<and> lt_size (pos p) textlen \<and>
    text_at buf (pos p) \<noteq> CSVN_NEWLINE \<and> text_at buf (pos p) \<noteq> CSVN_DELIM \<and>
    text_at buf (pos p) \<noteq> DQ"
  then show "pos p \<le> pos (fst (snd (csvn_parse_normal cfg buf textlen p tp num_tok)))"
    by (cases "csvn_parse_normal cfg buf textlen p tp num_tok")
       (auto dest: csvn_parse_normal_pos)
qed

theorem C8_pos_never_decreases_witness:
  "(loop_next default_config ''a,b'' 3 2)\<^sup>*\<^sup>* (fresh, None, 0) (fresh\<lparr>pos := 1\<rparr>, None, 1) \<and>
   pos fresh \<le> pos (fresh\<lparr>pos := 1\<rparr>) \<and>
   pos (fresh\<lparr>pos := 1\<rparr>) \<le> pos (fst (snd (parse_loop default_config ''a,b'' 3 2 fresh None 0))) \<and>
   text_at ''a,b'' (pos fresh) \<noteq> NUL \<and> lt_size (pos fresh) 3 \<and>
   text_at ''a,b'' (pos fresh) \<noteq> CSVN_NEWLINE \<and> text_at ''a,b'' (pos fresh) \<noteq> CSVN_DELIM \<and>
   text_at ''a,b'' (pos fresh) \<noteq> DQ \<and>
   pos fresh \<le> pos (fst (snd (csvn_parse_normal default_config ''a,b'' 3 fresh None 2)))"
proof -
  have "loop_next default_config ''a,b'' 3 2 (fresh, None, 0) (fresh\<lparr>pos := 1\<rparr>, None, 1)"
    by (simp add: loop_next_def fresh_def default_config_def parse_step_def
          csvn_parse_normal_def normal_loop.simps csvn_init_def text_at_def lt_size_def
          NUL_def DQ_def CSVN_DELIM_def CSVN_NEWLINE_def Let_def)
  then have r: "(loop_next default_config ''a,b'' 3 2)\<^sup>*\<^sup>* (fresh, None, 0)
      (fresh\<lparr>pos := 1\<rparr>, None, 1)"
    by (rule r_into_rtranclp)
  have h: "text_at ''a,b'' (pos fresh) \<noteq> NUL \<and> lt_size (pos fresh) 3 \<and>
    text_at ''a,b'' (pos fresh) \<noteq> CSVN_NEWLINE \<and> text_at ''a,b'' (pos fresh) \<noteq> CSVN_DELIM \<and>
    text_at ''a,b'' (pos fresh) \<noteq> DQ"
    by (simp add: fresh_def csvn_init_def text_at_def lt_size_def
          NUL_def DQ_def CSVN_DELIM_def CSVN_NEWLINE_def)
  from C8_pos_never_decreases [where cfg = default_config and buf = "''a,b''" and textlen = 3
      and num_tok = 2 and p = fresh and tp = None and n = 0 and p' = "fresh\<lparr>pos := 1\<rparr>"
      and tp' = None and n' = 1] r h
  show ?thesis by simp
qed

section \<open>A delimiter before a newline or the end of the text\<close>

text \<open>
  C9, as stated: the empty-field policy applies only between two adjacent delimiter bytes,
  and a delimiter followed by the end of the input gives no descriptor and no count,
  under every empty-field policy. Two inputs show otherwise. For the text \<^verbatim>\<open>a,,b\<close>
  with the declared length 2 the input ends behind the first delimiter (offset 2 is not
  below textlen), yet the delimiter case reads the byte at offset 2, which csvn_parse
  never compares with textlen there: under the default policy the parse returns 2 and
  stores an EMPTY descriptor from 1 to 2, and under CSVN_NO_EMPTY_FIELD it returns
  INVALID_CHARACTER. Under CSVN_SKIP_WHITESPACE the text \<^verbatim>\<open>a, ,b\<close> has a space between
  its two delimiters, and the parse returns 3 with an EMPTY descriptor from 2 to 3.
\<close>

theorem C9_empty_field_at_declared_end_counterexample:
  "text_at ''a,,b'' 1 = CSVN_DELIM \<and> \<not> lt_size 2 2 \<and>
   fst (csvn_parse default_config ''a,,b'' 2 fresh (Some Map.empty) 2) = Inr 2 \<and>
   slot (csvn_parse default_config ''a,,b'' 2 fresh (Some Map.empty) 2) 1 =
     Some \<lparr>t_start = 1, t_end = 2, t_line = 1, t_size = 1, t_token = EMPTY\<rparr> \<and>
   fst (csvn_parse (default_config\<lparr>no_empty_field := True\<rparr>) ''a,,b'' 2 fresh
          (Some Map.empty) 2) = Inl INVALID_CHARACTER \<and>
   text_at ''a, ,b'' 1 = CSVN_DELIM \<and> text_at ''a, ,b'' 2 = SPACE \<and>
   fst (csvn_parse (default_config\<lparr>skip_whitespace := True\<rparr>) ''a, ,b'' 5 fresh
          (Some Map.empty) 3) = Inr 3 \<and>
   slot (csvn_parse (default_config\<lparr>skip_whitespace := True\<rparr>) ''a, ,b'' 5 fresh
          (Some Map.empty) 3) 1 =
     Some \<lparr>t_start = 2, t_end = 3, t_line = 1, t_size = 1, t_token = EMPTY\<rparr>"
  by (simp add: csvn_eval fresh_def default_config_def
        skip_spaces.simps [of "''a, ,b''" "\<lparr>pos = 2, toknext = 1, line = 1\<rparr>"])

text \<open>
  C9, amended. When the loop of csvn_parse stands at a delimiter and the next byte is the
  newline byte or the NUL that ends the text, the iteration only moves the cursor behind
  the delimiter: the pool, toknext and the count stay as they are, under every
  configuration, so under every empty-field policy. The empty-field policy applies only
  when the byte that follows the delimiter is a delimiter again: the adjacent byte
  without CSVN_SKIP_WHITESPACE, the byte behind the run of spaces with it. In every other
  case the iteration touches neither pool nor count. For the text \<^verbatim>\<open>a,\<close>, newline,
  \<^verbatim>\<open>b\<close> the parse returns 2 and takes two slots, and for \<^verbatim>\<open>a,\<close> it returns 1 and
  takes one slot, under every configuration.
\<close>

theorem C9_no_empty_field_before_newline_or_end:
  "(text_at buf (pos p) = CSVN_DELIM \<and>
    (text_at buf (pos p + 1) = CSVN_NEWLINE \<or> text_at buf (pos p + 1) = NUL) \<longrightarrow>
      parse_step cfg buf textlen num_tok p tokpool parsed =
        Continue (p\<lparr>pos := pos p + 1\<rparr>) tokpool parsed) \<and>
   (\<not> skip_whitespace cfg \<and> text_at buf (pos p) = CSVN_DELIM \<and>
    text_at buf (pos p + 1) \<noteq> CSVN_DELIM \<longrightarrow>
      parse_step cfg buf textlen num_tok p tokpool parsed =
        Continue (p\<lparr>pos := pos p + 1\<rparr>) tokpool parsed) \<and>
   (text_at buf (pos p) = CSVN_DELIM \<and>
    text_at buf (pos (after_delim cfg buf p)) \<noteq> CSVN_DELIM \<longrightarrow>
      parse_step cfg buf textlen num_tok p tokpool parsed =
        Continue (after_delim cfg buf p) tokpool parsed) \<and>
   fst (csvn_parse cfg (''a,'' @ [CSVN_NEWLINE] @ ''b'') 4 (csvn_init st) None 0) = Inr 2 \<and>
   fst (csvn_parse cfg (''a,'' @ [CSVN_NEWLINE] @ ''b'') 4 (csvn_init st) (Some mem) 2) = Inr 2 \<and>
   toknext (fst (snd (csvn_parse cfg (''a,'' @ [CSVN_NEWLINE] @ ''b'') 4 (csvn_init st)
                        (Some mem) 2))) = 2 \<and>
   fst (csvn_parse cfg ''a,'' 2 (csvn_init st) None 0) = Inr 1 \<and>
   fst (csvn_parse cfg ''a,'' 2 (csvn_init st) (Some mem) 1) = Inr 1 \<and>
   toknext (fst (snd (csvn_parse cfg ''a,'' 2 (csvn_init st) (Some mem) 1))) = 1"
proof (intro conjI impI)
  assume a: "text_at buf (pos p) = CSVN_DELIM \<and>
    (text_at buf (pos p + 1) = CSVN_NEWLINE \<or> text_at buf (pos p + 1) = NUL)"
  then have "text_at buf (pos p) \<noteq> CSVN_NEWLINE" "text_at buf (pos p + 1) \<noteq> SPACE"
    "text_at buf (pos p + 1) \<noteq> CSVN_DELIM"
    by (auto simp: CSVN_DELIM_def CSVN_NEWLINE_def SPACE_def NUL_def)
  with a show "parse_step cfg buf textlen num_tok p tokpool parsed =
        Continue (p\<lparr>pos := pos p + 1\<rparr>) tokpool parsed"
    by (simp add: parse_step_def Let_def)
next
  assume a: "\<not> skip_whitespace cfg \<and> text_at buf (pos p) = CSVN_DELIM \<and>
    text_at buf (pos p + 1) \<noteq> CSVN_DELIM"
  then have "text_at buf (pos p) \<noteq> CSVN_NEWLINE"
    by (simp add: CSVN_DELIM_def CSVN_NEWLINE_def)
  with a show "parse_step cfg buf textlen num_tok p tokpool parsed =
        Continue (p\<lparr>pos := pos p + 1\<rparr>) tokpool parsed"
    by (simp add: parse_step_def Let_def)
next
  assume a: "text_at buf (pos p) = CSVN_DELIM \<and>
    text_at buf (pos (after_delim cfg buf p)) \<noteq> CSVN_DELIM"
  then have "text_at buf (pos p) \<noteq> CSVN_NEWLINE"
    by (simp add: CSVN_DELIM_def CSVN_NEWLINE_def)
  with a show "parse_step cfg buf textlen num_tok p tokpool parsed =
        Continue (after_delim cfg buf p) tokpool parsed"
    by (simp add: parse_step_delim)
qed (simp_all add: csvn_eval)

theorem C9_no_empty_field_before_newline_or_end_witness:
  "text_at ''a,'' (pos (fresh\<lparr>pos := 1\<rparr>)) = CSVN_DELIM \<and>
   text_at ''a,'' (pos (fresh\<lparr>pos := 1\<rparr>) + 1) = NUL \<and>
   text_at ''a,'' (pos (after_delim (default_config\<lparr>no_empty_field := True\<rparr>) ''a,''
                          (fresh\<lparr>pos := 1\<rparr>))) \<noteq> CSVN_DELIM \<and>
   parse_step (default_config\<lparr>no_empty_field := True\<rparr>) ''a,'' 2 1 (fresh\<lparr>pos := 1\<rparr>)
     (Some Map.empty) 1 = Continue (fresh\<lparr>pos := 2\<rparr>) (Some Map.empty) 1 \<and>
   \<not> skip_whitespace default_config \<and>
   text_at (''a,'' @ [CSVN_NEWLINE] @ ''b'') (pos (fresh\<lparr>pos := 1\<rparr>)) = CSVN_DELIM \<and>
   text_at (''a,'' @ [CSVN_NEWLINE] @ ''b'') (pos (fresh\<lparr>pos := 1\<rparr>) + 1) = CSVN_NEWLINE \<and>
   text_at (''a,'' @ [CSVN_NEWLINE] @ ''b'') (pos (fresh\<lparr>pos := 1\<rparr>) + 1) \<noteq> CSVN_DELIM \<and>
   parse_step default_config (''a,'' @ [CSVN_NEWLINE] @ ''b'') 4 2 (fresh\<lparr>pos := 1\<rparr>)
     None 1 = Continue (fresh\<lparr>pos := 2\<rparr>) None 1"
proof -
  have h: "text_at ''a,'' (pos (fresh\<lparr>pos := 1\<rparr>)) = CSVN_DELIM"
    "text_at ''a,'' (pos (fresh\<lparr>pos := 1\<rparr>) + 1) = NUL"
    "text_at ''a,'' (pos (after_delim (default_config\<lparr>no_empty_field := True\<rparr>) ''a,''
                          (fresh\<lparr>pos := 1\<rparr>))) \<noteq> CSVN_DELIM"
    "\<not> skip_whitespace default_config"
    "text_at (''a,'' @ [CSVN_NEWLINE] @ ''b'') (pos (fresh\<lparr>pos := 1\<rparr>)) = CSVN_DELIM"
    "text_at (''a,'' @ [CSVN_NEWLINE] @ ''b'') (pos (fresh\<lparr>pos := 1\<rparr>) + 1) = CSVN_NEWLINE"
    "text_at (''a,'' @ [CSVN_NEWLINE] @ ''b'') (pos (fresh\<lparr>pos := 1\<rparr>) + 1) \<noteq> CSVN_DELIM"
    by (simp_all add: fresh_def csvn_init_def text_at_def CSVN_DELIM_def NUL_def SPACE_def
          CSVN_NEWLINE_def after_delim_def default_config_def)
  from C9_no_empty_field_before_newline_or_end [where buf = "''a,''" and p = "fresh\<lparr>pos := 1\<rparr>"
      and cfg = "default_config\<lparr>no_empty_field := True\<rparr>" and textlen = 2 and num_tok = 1
      and tokpool = "Some Map.empty" and parsed = 1 and st = fresh and mem = Map.empty]
    C9_no_empty_field_before_newline_or_end [where buf = "''a,'' @ [CSVN_NEWLINE] @ ''b''"
      and p = "fresh\<lparr>pos := 1\<rparr>"
      and cfg = default_config and textlen = 4 and num_tok = 2
      and tokpool = None and parsed = 1 and st = fresh and mem = Map.empty] h
  show ?thesis by simp
qed

section \<open>Termination\<close>

text \<open>
  C10. csvn_parse returns for every text: the loops of the embedding are total functions
  (the measure of the dispatch loop is textlen - pos), and the theorem gives the progress
  behind it. An iteration that falls through to the next test of the loop condition has
  moved pos forward by at least one byte, by at least two when it began at a quote, so
  the distance from pos to textlen has decreased; and the loop cut off after
  textlen - pos iterations has already returned, with the result of csvn_parse's loop.
\<close>

theorem C10_parse_terminates:
  "(text_at buf (pos p) \<noteq> NUL \<and> lt_size (pos p) textlen \<and>
    parse_step cfg buf textlen num_tok p tp n = Continue p' tp' n' \<longrightarrow>
      pos p + 1 \<le> pos p' \<and>
      (text_at buf (pos p) = DQ \<longrightarrow> pos p + 2 \<le> pos p') \<and>
      nat (int textlen - pos p') < nat (int textlen - pos p)) \<and>
   parse_fuel (nat (int textlen - pos p)) cfg buf textlen num_tok p tp n =
     Some (parse_loop cfg buf textlen num_tok p tp n)"
proof (intro conjI impI)
  assume a: "text_at buf (pos p) \<noteq> NUL \<and> lt_size (pos p) textlen \<and>
    parse_step cfg buf textlen num_tok p tp n = Continue p' tp' n'"
  then have lt: "pos p < pos p'"
    by (blast intro: parse_step_Continue_pos)
  then show "pos p + 1 \<le> pos p'" by simp
  from lt a show "nat (int textlen - pos p') < nat (int textlen - pos p)"
    by (simp add: lt_size_def)
  assume "text_at buf (pos p) = DQ"
  with a show "pos p + 2 \<le> pos p'"
    by (blast intro: parse_step_quote_pos)
next
  show "parse_fuel (nat (int textlen - pos p)) cfg buf textlen num_tok p tp n =
     Some (parse_loop cfg buf textlen num_tok p tp n)"
    by (rule parse_fuel_enough) simp
qed

theorem C10_parse_terminates_witness:
  "text_at [DQ, CHR ''a'', DQ] (pos fresh) \<noteq> NUL \<and> lt_size (pos fresh) 3 \<and>
   text_at [DQ, CHR ''a'', DQ] (pos fresh) = DQ \<and>
   parse_step default_config [DQ, CHR ''a'', DQ] 3 1 fresh None 0 =
     Continue (fresh\<lparr>pos := 3\<rparr>) None 1 \<and>
   pos fresh + 1 \<le> pos (fresh\<lparr>pos := 3\<rparr>) \<and>
   pos fresh + 2 \<le> pos (fresh\<lparr>pos := 3\<rparr>) \<and>
   nat (int 3 - pos (fresh\<lparr>pos := 3\<rparr>)) < nat (int 3 - pos fresh)"
proof -
  have h: "text_at [DQ, CHR ''a'', DQ] (pos fresh) \<noteq> NUL" "lt_size (pos fresh) 3"
    "text_at [DQ, CHR ''a'', DQ] (pos fresh) = DQ"
    "parse_step default_config [DQ, CHR ''a'', DQ] 3 1 fresh None 0 =
       Continue (fresh\<lparr>pos := 3\<rparr>) None 1"
    by (simp_all add: fresh_def default_config_def csvn_eval)
  from C10_parse_terminates [where buf = "[DQ, CHR ''a'', DQ]" and p = fresh and textlen = 3
      and cfg = default_config and num_tok = 1 and tp = None and n = 0
      and p' = "fresh\<lparr>pos := 3\<rparr>" and tp' = None and n' = 1] h
  show ?thesis by simp
qed

end
